theory Spec2Isabelle
  imports Main "HOL-Library.Multiset" "HOL-Library.Sublist"
begin

section \<open>Data model of \<open>ircrobots/server.py\<close>\<close>

text \<open>
  Python strings are modelled as \<^typ>\<open>string\<close>, read as the UTF-8 bytes of the text, so that
  \<open>str.encode("utf8")\<close> and \<open>bytes.decode("ascii")\<close> are the identity.

  A \<open>Line\<close> of irctokens carries an optional source, a command and its parameters;
  \<open>build(command, params)\<close> makes one without a source.
\<close>

record line =
  source :: "string option"
  command :: string
  params :: "string list"

definition build :: "string \<Rightarrow> string list \<Rightarrow> line" where
  "build c ps = \<lparr>source = None, command = c, params = ps\<rparr>"

text \<open>
  A \<open>PriorityLine\<close> pairs a priority with a line. Priorities are the integers of the
  \<open>SendPriority\<close> enumeration.
\<close>

record priority_line =
  priority :: int
  pline :: line

text \<open>
  Modelled from the spec: the ordering of \<open>PriorityLine\<close> (class of the \<open>interface\<close> module,
  which is not among the source files): "ordering key = priority only".
\<close>

definition lt :: "priority_line \<Rightarrow> priority_line \<Rightarrow> bool" where
  "lt a b = (priority a < priority b)"

text \<open>The exceptions that the modelled code can raise.\<close>

datatype error =
    SASLUnkownMechanismError "string list"
  | IndexError
  | KeyError
  | InvalidStateError
  | ConnectionClosedError

datatype SASLResult = SUCCESS | FAILURE | ALREADY

text \<open>
  An \<open>asyncio.Future\<close> is pending, or holds a result, or holds an exception. The futures that
  \<open>wait_for\<close> creates live in a store, in creation order; a future is named by its position.
\<close>

datatype future = Pending | Result line | Exception error

text \<open>
  The SASL parameters and the connection parameters (classes of the \<open>interface\<close> module),
  with the fields that \<open>server.py\<close> reads after the connection is made. The mechanism is kept
  as the string that \<open>_cap_ack\<close> compares.
\<close>

record sasl_params =
  mechanism :: string
  sasl_username :: "string option"
  sasl_password :: "string option"

record connection_params =
  sasl :: "sasl_params option"

text \<open>
  An \<open>Emit\<close> of ircstates, with the fields read by \<open>_on_read_emit\<close> and \<open>_cap_ack\<close>.
\<close>

record emit =
  emit_command :: string
  subcommand :: string
  finished :: bool
  tokens :: "string list option"

text \<open>
  The state of a \<open>Server\<close>. A response object (\<open>BaseResponse\<close>) is modelled by its \<open>match\<close>
  method, a predicate on lines. \<open>write_queue\<close> is the heap list inside the
  \<open>asyncio.PriorityQueue\<close>; \<open>cap_queue\<close> is a Python set, which has no order;
  \<open>wait_for_list\<close> is the attribute \<open>_wait_for\<close>; \<open>writer\<close> collects the lines handed to the
  stream writer. \<open>available_caps\<close> (a dict whose values may be \<open>None\<close>) and
  \<open>agreed_caps\<close> are maintained by ircstates.
\<close>

record 'c server =
  write_queue :: "priority_line list"
  cap_queue :: "'c set"
  requested_caps :: "string list"
  wait_for_list :: "((line \<Rightarrow> bool) \<times> nat) list"
  futures :: "future list"
  conn_params :: connection_params
  available_caps :: "string \<rightharpoonup> string option"
  agreed_caps :: "string list"
  writer :: "line list"

text \<open>
  The names imported from the modules \<open>ircv3\<close> and \<open>interface\<close>, which are not among the
  source files, are parameters of the model: the list \<open>CAPS\<close>, the capability \<open>CAP_SASL\<close>,
  the method \<open>Capability.available\<close> (given a capability and the names on offer, the name to
  request, if any) and the priority \<open>SendPriority.DEFAULT\<close>.
\<close>

record 'c env =
  CAPS :: "'c list"
  CAP_SASL :: 'c
  available :: "'c \<Rightarrow> string set \<Rightarrow> string option"
  DEFAULT :: int

section \<open>The heap of \<open>asyncio.PriorityQueue\<close>\<close>

text \<open>
  \<open>PriorityQueue._put\<close> is \<open>heapq.heappush\<close> and \<open>PriorityQueue._get\<close> is
  \<open>heapq.heappop\<close>, on a Python list. The two loops of heapq are modelled with the hole they
  move: \<open>siftdown_loop\<close> and \<open>siftup_loop\<close> return the list and the final position, where
  the caller stores \<open>newitem\<close>.
\<close>

function siftdown_loop ::
  "priority_line list \<Rightarrow> priority_line \<Rightarrow> nat \<Rightarrow> nat \<Rightarrow> priority_line list \<times> nat" where
  "siftdown_loop heap newitem startpos pos =
     (if pos > startpos then
        (let parentpos = (pos - 1) div 2;
             parent = heap ! parentpos
         in if lt newitem parent
            then siftdown_loop (heap[pos := parent]) newitem startpos parentpos
            else (heap, pos))
      else (heap, pos))"
  by pat_completeness auto
termination
  by (relation "measure (\<lambda>(heap, newitem, startpos, pos). pos)") auto

definition siftdown :: "priority_line list \<Rightarrow> nat \<Rightarrow> nat \<Rightarrow> priority_line list" where
  "siftdown heap startpos pos =
     (let newitem = heap ! pos;
          (heap', pos') = siftdown_loop heap newitem startpos pos
      in heap'[pos' := newitem])"

function siftup_loop :: "priority_line list \<Rightarrow> nat \<Rightarrow> nat \<Rightarrow> priority_line list \<times> nat" where
  "siftup_loop heap endpos pos =
     (let childpos = 2 * pos + 1
      in if childpos < endpos then
           (let rightpos = childpos + 1;
                childpos' = (if rightpos < endpos \<and> \<not> lt (heap ! childpos) (heap ! rightpos)
                             then rightpos else childpos)
            in siftup_loop (heap[pos := heap ! childpos']) endpos childpos')
         else (heap, pos))"
  by pat_completeness auto
termination
  by (relation "measure (\<lambda>(heap, endpos, pos). endpos - pos)") (auto simp: Let_def)

definition siftup :: "priority_line list \<Rightarrow> nat \<Rightarrow> priority_line list" where
  "siftup heap pos =
     (let endpos = length heap;
          startpos = pos;
          newitem = heap ! pos;
          (heap', pos') = siftup_loop heap endpos pos
      in siftdown (heap'[pos' := newitem]) startpos pos')"

definition heappush :: "priority_line list \<Rightarrow> priority_line \<Rightarrow> priority_line list" where
  "heappush heap item = siftdown (heap @ [item]) 0 (length (heap @ [item]) - 1)"

definition heappop :: "priority_line list \<Rightarrow> error + (priority_line \<times> priority_line list)" where
  "heappop heap =
     (if heap = [] then Inl IndexError
      else (let lastelt = last heap;
                heap' = butlast heap
            in if heap' \<noteq> [] then
                 (let returnitem = heap' ! 0
                  in Inr (returnitem, siftup (heap'[0 := lastelt]) 0))
               else Inr (lastelt, heap')))"

declare siftdown_loop.simps [simp del]
declare siftup_loop.simps [simp del]

text \<open>
  The heap invariant of heapq: no element is smaller than its parent. While an element is
  being sifted, the list has a hole at \<open>p\<close>: \<open>hole_inv\<close> says that the invariant holds
  between all positions other than \<open>p\<close> and that the parent of \<open>p\<close> is not larger than the
  children of \<open>p\<close>; \<open>sift_inv\<close> adds that the element \<open>x\<close> being sifted is not larger than
  the children of \<open>p\<close>.
\<close>

definition heap_ok :: "priority_line list \<Rightarrow> bool" where
  "heap_ok h = (\<forall>i. 0 < i \<and> i < length h \<longrightarrow> priority (h ! ((i - 1) div 2)) \<le> priority (h ! i))"

definition hole_inv :: "priority_line list \<Rightarrow> nat \<Rightarrow> bool" where
  "hole_inv h p =
     ((\<forall>i. 0 < i \<and> i < length h \<and> i \<noteq> p \<and> (i - 1) div 2 \<noteq> p \<longrightarrow>
           priority (h ! ((i - 1) div 2)) \<le> priority (h ! i)) \<and>
      (\<forall>i. 0 < i \<and> i < length h \<and> (i - 1) div 2 = p \<and> 0 < p \<longrightarrow>
           priority (h ! ((p - 1) div 2)) \<le> priority (h ! i)))"

definition sift_inv :: "priority_line list \<Rightarrow> nat \<Rightarrow> priority_line \<Rightarrow> bool" where
  "sift_inv h p x =
     (hole_inv h p \<and>
      (\<forall>i. 0 < i \<and> i < length h \<and> (i - 1) div 2 = p \<longrightarrow> priority x \<le> priority (h ! i)))"

section \<open>Sending and the wait registry\<close>

definition send :: "line \<Rightarrow> int \<Rightarrow> 'c server \<Rightarrow> 'c server" where
  "send l prio s =
     s\<lparr>write_queue := heappush (write_queue s) \<lparr>priority = prio, pline = l\<rparr>\<rparr>"

definition wait_for :: "(line \<Rightarrow> bool) \<Rightarrow> 'c server \<Rightarrow> nat \<times> 'c server" where
  "wait_for response s =
     (let fut = length (futures s)
      in (fut, s\<lparr>futures := futures s @ [Pending],
                 wait_for_list := wait_for_list s @ [(response, fut)]\<rparr>))"

text \<open>
  \<open>Future.set_result\<close> raises \<open>InvalidStateError\<close> on a future that is no longer pending.
\<close>

definition set_result :: "nat \<Rightarrow> line \<Rightarrow> 'c server \<Rightarrow> error + 'c server" where
  "set_result fut l s =
     (if fut < length (futures s) \<and> futures s ! fut = Pending
      then Inr (s\<lparr>futures := (futures s)[fut := Result l]\<rparr>)
      else Inl InvalidStateError)"

definition pop :: "nat \<Rightarrow> 'a list \<Rightarrow> 'a list" where
  "pop i xs = take i xs @ drop (Suc i) xs"

text \<open>
  The \<open>for\<close> loop of \<open>_on_read_line\<close>: \<open>i\<close> is the index of the entry at the head of the
  entries that remain to be visited.
\<close>

fun on_read_line_loop ::
  "line \<Rightarrow> nat \<Rightarrow> ((line \<Rightarrow> bool) \<times> nat) list \<Rightarrow> 'c server \<Rightarrow> error + 'c server" where
  "on_read_line_loop l i [] s = Inr s"
| "on_read_line_loop l i ((response, fut) # rest) s =
     (if response l
      then set_result fut l (s\<lparr>wait_for_list := pop i (wait_for_list s)\<rparr>)
      else on_read_line_loop l (Suc i) rest s)"

definition on_read_line :: "'c env \<Rightarrow> line \<Rightarrow> 'c server \<Rightarrow> error + 'c server" where
  "on_read_line E l s =
     (case on_read_line_loop l 0 (wait_for_list s) s of
        Inl e \<Rightarrow> Inl e
      | Inr s' \<Rightarrow>
          if command l = ''PING''
          then Inr (send (build ''PONG'' (params l)) (DEFAULT E) s')
          else Inr s')"

text \<open>
  The registry is well formed when its futures are distinct, exist in the store and are
  pending: \<open>wait_for\<close> appends a fresh pending future, and nothing else adds an entry.
\<close>

definition registry_ok :: "'c server \<Rightarrow> bool" where
  "registry_ok s =
     (distinct (map snd (wait_for_list s)) \<and>
      list_all (\<lambda>e. snd e < length (futures s) \<and> futures s ! snd e = Pending) (wait_for_list s))"

text \<open>The read loop hands every line it decodes to \<open>_on_read_line\<close>, in order.\<close>

fun on_read_lines :: "'c env \<Rightarrow> line list \<Rightarrow> 'c server \<Rightarrow> error + 'c server" where
  "on_read_lines E [] s = Inr s"
| "on_read_lines E (l # ls) s =
     (case on_read_line E l s of Inl e \<Rightarrow> Inl e | Inr s' \<Rightarrow> on_read_lines E ls s')"

section \<open>The write loop\<close>

text \<open>
  \<open>_write_lines\<close> takes between one and five lines off the queue and writes them.
  \<open>PriorityQueue.get\<close> on an empty queue suspends until something is put: the model returns
  \<open>None\<close> there. The throttle and the formatting of a line as bytes are not modelled;
  \<open>writer\<close> receives the lines in the order of the calls of \<open>write\<close>.
\<close>

function write_lines_loop ::
  "line list \<Rightarrow> 'c server \<Rightarrow> (line list \<times> 'c server) option" where
  "write_lines_loop lines s =
     (if lines = [] \<or> (length lines < 5 \<and> length (write_queue s) > 0) then
        (case heappop (write_queue s) of
           Inl e \<Rightarrow> None
         | Inr (prio_line, q) \<Rightarrow>
             write_lines_loop (lines @ [pline prio_line]) (s\<lparr>write_queue := q\<rparr>))
      else Some (lines, s))"
  by pat_completeness auto
termination
  by (relation "measure (\<lambda>(lines, s). 5 - length lines)") auto

definition write_lines :: "'c server \<Rightarrow> (line list \<times> 'c server) option" where
  "write_lines s =
     (case write_lines_loop [] s of
        None \<Rightarrow> None
      | Some (lines, s') \<Rightarrow> Some (lines, s'\<lparr>writer := writer s' @ lines\<rparr>))"

declare write_lines_loop.simps [simp del]

text \<open>
  The write loop calls \<open>_write_lines\<close> again and again. \<open>drain n\<close> makes up to \<open>n\<close> calls and
  stops at the call that finds the queue empty (where the loop would suspend); it returns the
  lines in the order they were written. \<open>send_all\<close> is a sequence of calls of \<open>send\<close>.
\<close>

fun drain :: "nat \<Rightarrow> 'c server \<Rightarrow> line list \<times> 'c server" where
  "drain 0 s = ([], s)"
| "drain (Suc n) s =
     (case write_lines s of
        None \<Rightarrow> ([], s)
      | Some (lines, s') \<Rightarrow> (let (rest, s'') = drain n s' in (lines @ rest, s'')))"

definition send_all :: "(line \<times> int) list \<Rightarrow> 'c server \<Rightarrow> 'c server" where
  "send_all xs s = fold (\<lambda>(l, prio). send l prio) xs s"

section \<open>Coroutines\<close>

text \<open>
  The only point where the SASL and CAP coroutines suspend is \<open>await self.wait_for(...)\<close>
  (\<open>await self.send(...)\<close> puts into an unbounded queue and does not suspend). Running a
  coroutine up to its next suspension gives a \<open>task\<close>: it returned, it raised, or it awaits a
  future; each with the server state it left. The continuation of \<open>Await\<close> receives the line
  the future was resolved with and the server state at the time the coroutine resumes.
\<close>

datatype ('a, 'c) task =
    Return 'a "'c server"
  | Raise error "'c server"
  | Await nat "'c server" "line \<Rightarrow> 'c server \<Rightarrow> ('a, 'c) task"

text \<open>\<open>bind t f\<close> is \<open>x = await t; f(x)\<close>.\<close>

primrec bind :: "('a, 'c) task \<Rightarrow> ('a \<Rightarrow> 'c server \<Rightarrow> ('b, 'c) task) \<Rightarrow> ('b, 'c) task" where
  "bind (Return a s) f = f a s"
| "bind (Raise e s) f = Raise e s"
| "bind (Await fut s k) f = Await fut s (\<lambda>l s'. bind (k l s') f)"

primrec state_of :: "('a, 'c) task \<Rightarrow> 'c server" where
  "state_of (Return a s) = s"
| "state_of (Raise e s) = s"
| "state_of (Await fut s k) = s"

text \<open>
  \<open>resume rs t\<close> resumes a suspended coroutine with each element of \<open>rs\<close> in turn: the line
  its future was resolved with and the server state at that time. \<open>keeps_requested t s\<close> says
  that no part of the coroutine, whenever it is resumed, changes \<open>_requested_caps\<close>.
\<close>

fun resume :: "(line \<times> 'c server) list \<Rightarrow> ('a, 'c) task \<Rightarrow> ('a, 'c) task" where
  "resume [] t = t"
| "resume ((l, s') # rs) (Await fut s k) = resume rs (k l s')"
| "resume (r # rs) t = t"

primrec keeps_requested :: "('a, 'c) task \<Rightarrow> 'c server \<Rightarrow> bool" where
  "keeps_requested (Return a s) = (\<lambda>s0. requested_caps s = requested_caps s0)"
| "keeps_requested (Raise e s) = (\<lambda>s0. requested_caps s = requested_caps s0)"
| "keeps_requested (Await fut s k) =
     (\<lambda>s0. requested_caps s = requested_caps s0 \<and> (\<forall>l s'. keeps_requested (k l s') s'))"




section \<open>Responses\<close>

text \<open>
  The \<open>matching\<close> module is not among the source files. \<open>server.py\<close> uses its classes
  \<open>Response\<close> (with the parameter pattern \<open>ParamAny\<close>) and \<open>Numerics\<close>, and only through
  their method \<open>match\<close>.
\<close>

datatype param = ParamAny | Literal string

text \<open>
  Modelled from the spec: the match of one parameter pattern of the \<open>matching\<close> module
  against one parameter: "literal equality" or "any value".
\<close>

fun param_match :: "param \<Rightarrow> string \<Rightarrow> bool" where
  "param_match ParamAny a = True"
| "param_match (Literal v) a = (a = v)"

text \<open>
  Modelled from the spec: the match of the "ordered parameter patterns" of a \<open>Response\<close> of
  the \<open>matching\<close> module against the parameters of a line, position by position.
\<close>

fun params_match :: "param list \<Rightarrow> string list \<Rightarrow> bool" where
  "params_match [] as = True"
| "params_match (p # ps) [] = False"
| "params_match (p # ps) (a # as) = (param_match p a \<and> params_match ps as)"

text \<open>
  Modelled from the spec: \<open>Response(command, params, errors).match\<close> of the \<open>matching\<close>
  module. "A matcher tests a candidate Line for a structural match against an expected command
  and ordered parameter patterns"; "a line whose command is in that set [of error codes] also
  counts as a match".
\<close>

definition Response :: "string \<Rightarrow> param list \<Rightarrow> string list \<Rightarrow> line \<Rightarrow> bool" where
  "Response cmd ps errors l =
     ((command l = cmd \<and> params_match ps (params l)) \<or> command l \<in> set errors)"

text \<open>
  Modelled from the spec: \<open>Numerics(numerics).match\<close> of the \<open>matching\<close> module, which
  \<open>server.py\<close> uses to "wait for numeric {903,904}": the command of the line is one of the
  numerics.
\<close>

definition Numerics :: "string list \<Rightarrow> line \<Rightarrow> bool" where
  "Numerics numerics l = (command l \<in> set numerics)"

section \<open>Strings\<close>

text \<open>\<open>xs[i]\<close> for \<open>i \<ge> 0\<close>: raises \<open>IndexError\<close> out of range.\<close>

definition index :: "'a list \<Rightarrow> nat \<Rightarrow> error + 'a" where
  "index xs i = (if i < length xs then Inr (xs ! i) else Inl IndexError)"

text \<open>\<open>s.split(sep)\<close> for a separator of one character: \<open>"".split(",")\<close> is \<open>[""]\<close>.\<close>

fun str_split :: "char \<Rightarrow> string \<Rightarrow> string list" where
  "str_split sep [] = [[]]"
| "str_split sep (c # cs) =
     (if c = sep then [] # str_split sep cs
      else (case str_split sep cs of
              [] \<Rightarrow> [[c]]
            | w # ws \<Rightarrow> (c # w) # ws))"

text \<open>\<open>sep.join(xs)\<close>.\<close>

fun join :: "string \<Rightarrow> string list \<Rightarrow> string" where
  "join sep [] = []"
| "join sep [x] = x"
| "join sep (x # y # ys) = x @ sep @ join sep (y # ys)"

text \<open>\<open>base64.b64encode\<close> (RFC 4648, standard alphabet, padded).\<close>

definition b64_alphabet :: string where
  "b64_alphabet = ''ABCDEFGHIJKLMNOPQRSTUVWXYZabcdefghijklmnopqrstuvwxyz0123456789+/''"

definition b64_char :: "nat \<Rightarrow> char" where
  "b64_char n = b64_alphabet ! (n mod 64)"

fun b64encode :: "string \<Rightarrow> string" where
  "b64encode [] = []"
| "b64encode [a] =
     (let n = of_char a * 65536
      in [b64_char (n div 262144), b64_char (n div 4096), CHR ''='', CHR ''=''])"
| "b64encode [a, b] =
     (let n = of_char a * 65536 + of_char b * 256
      in [b64_char (n div 262144), b64_char (n div 4096), b64_char (n div 64), CHR ''=''])"
| "b64encode (a # b # c # rest) =
     (let n = of_char a * 65536 + of_char b * 256 + of_char c
      in [b64_char (n div 262144), b64_char (n div 4096), b64_char (n div 64), b64_char n]
         @ b64encode rest)"



section \<open>SASL\<close>

definition SASL_USERPASS_MECHANISMS :: "string list" where
  "SASL_USERPASS_MECHANISMS = [''SCRAM-SHA-512'', ''SCRAM-SHA-256'', ''SCRAM-SHA-1'', ''PLAIN'']"

definition sasl_external :: "'c env \<Rightarrow> 'c server \<Rightarrow> (SASLResult, 'c) task" where
  "sasl_external E s =
     (let s1 = send (build ''AUTHENTICATE'' [''EXTERNAL'']) (DEFAULT E) s;
          (fut, s2) = wait_for (Response ''AUTHENTICATE'' [ParamAny] [''904'', ''907'', ''908'']) s1
      in Await fut s2 (\<lambda>line s3.
           if command line = ''907'' then Return ALREADY s3
           else if command line = ''908'' then
             (case index (params line) 1 of
                Inl e \<Rightarrow> Raise e s3
              | Inr v \<Rightarrow> Raise (SASLUnkownMechanismError (str_split CHR '','' v)) s3)
           else if command line = ''AUTHENTICATE'' then
             (case index (params line) 0 of
                Inl e \<Rightarrow> Raise e s3
              | Inr p0 \<Rightarrow>
                  if p0 = ''+'' then
                    (let s4 = send (build ''AUTHENTICATE'' [''+'']) (DEFAULT E) s3;
                         (fut', s5) = wait_for (Numerics [''903'', ''904'']) s4
                     in Await fut' s5 (\<lambda>line' s6.
                          if command line' = ''903'' then Return SUCCESS s6
                          else Return FAILURE s6))
                  else Return FAILURE s3)
           else Return FAILURE s3))"

text \<open>The \<open>for\<close> loop of \<open>_common\<close> over our mechanisms, in their order.\<close>

fun common_loop :: "string list \<Rightarrow> string list \<Rightarrow> string option" where
  "common_loop [] server_mechs = None"
| "common_loop (our_mech # rest) server_mechs =
     (if our_mech \<in> set server_mechs then Some our_mech else common_loop rest server_mechs)"

definition common :: "string list \<Rightarrow> error + string" where
  "common server_mechs =
     (case common_loop SASL_USERPASS_MECHANISMS server_mechs of
        Some our_mech \<Rightarrow> Inr our_mech
      | None \<Rightarrow> Inl (SASLUnkownMechanismError server_mechs))"

text \<open>
  The end of \<open>sasl_userpass\<close>, from \<open>if line.command == "AUTHENTICATE" and ...\<close> on; both the
  direct path and the path through 908 reach it, with their own \<open>match\<close> and \<open>line\<close>.
\<close>

definition sasl_userpass_respond ::
  "'c env \<Rightarrow> string \<Rightarrow> string \<Rightarrow> string \<Rightarrow> line \<Rightarrow> 'c server \<Rightarrow> (SASLResult, 'c) task" where
  "sasl_userpass_respond E username password match line s =
     (if command line = ''AUTHENTICATE'' then
        (case index (params line) 0 of
           Inl e \<Rightarrow> Raise e s
         | Inr p0 \<Rightarrow>
             if p0 = ''+'' then
               (let auth_text =
                      (if match = ''PLAIN''
                       then Some (username @ [CHR 0x00] @ username @ [CHR 0x00] @ password)
                       else None)
                in case auth_text of
                     None \<Rightarrow> Return FAILURE s
                   | Some payload \<Rightarrow>
                       (let auth_b64 = b64encode payload;
                            s1 = send (build ''AUTHENTICATE'' [auth_b64]) (DEFAULT E) s;
                            (fut, s2) = wait_for (Numerics [''903'', ''904'']) s1
                        in Await fut s2 (\<lambda>line' s3.
                             if command line' = ''903'' then Return SUCCESS s3
                             else Return FAILURE s3)))
             else Return FAILURE s)
      else Return FAILURE s)"

definition sasl_userpass ::
  "'c env \<Rightarrow> string \<Rightarrow> string \<Rightarrow> 'c server \<Rightarrow> (SASLResult, 'c) task" where
  "sasl_userpass E username password s =
     (case (case available_caps s ''sasl'' of
              None \<Rightarrow> Inl KeyError
            | Some (Some v) \<Rightarrow> common (str_split CHR '','' v)
            | Some None \<Rightarrow> index SASL_USERPASS_MECHANISMS 0) of
        Inl e \<Rightarrow> Raise e s
      | Inr match \<Rightarrow>
          (let s1 = send (build ''AUTHENTICATE'' [match]) (DEFAULT E) s;
               (fut, s2) =
                 wait_for (Response ''AUTHENTICATE'' [ParamAny] [''904'', ''907'', ''908'']) s1
           in Await fut s2 (\<lambda>line s3.
                if command line = ''907'' then Return ALREADY s3
                else if command line = ''908'' then
                  (case index (params line) 1 of
                     Inl e \<Rightarrow> Raise e s3
                   | Inr v \<Rightarrow>
                       (case common (str_split CHR '','' v) of
                          Inl e \<Rightarrow> Raise e s3
                        | Inr match' \<Rightarrow>
                            (let s4 = send (build ''AUTHENTICATE'' [match']) (DEFAULT E) s3;
                                 (fut', s5) =
                                   wait_for (Response ''AUTHENTICATE'' [ParamAny] []) s4
                             in Await fut' s5
                                  (sasl_userpass_respond E username password match'))))
                else sasl_userpass_respond E username password match line s3)))"

section \<open>Capability negotiation\<close>

definition queue_capability :: "'c \<Rightarrow> 'c server \<Rightarrow> 'c server" where
  "queue_capability cap s = s\<lparr>cap_queue := insert cap (cap_queue s)\<rparr>"

definition cap_available :: "'c env \<Rightarrow> 'c \<Rightarrow> 'c server \<Rightarrow> string option" where
  "cap_available E capability s = available E capability (set (agreed_caps s))"

definition cap_agreed :: "'c env \<Rightarrow> 'c \<Rightarrow> 'c server \<Rightarrow> bool" where
  "cap_agreed E capability s =
     (case cap_available E capability s of None \<Rightarrow> False | Some n \<Rightarrow> n \<noteq> [])"

text \<open>\<open>filter(bool, ...)\<close> drops \<open>None\<close> and the empty string.\<close>

fun filter_bool :: "string option list \<Rightarrow> string list" where
  "filter_bool [] = []"
| "filter_bool (None # xs) = filter_bool xs"
| "filter_bool (Some n # xs) = (if n = [] then filter_bool xs else n # filter_bool xs)"

text \<open>
  \<open>list(self._cap_queue)\<close> lists the elements of the set, each once, in an order that Python
  does not specify. The list it returns is the parameter \<open>queued\<close> of \<open>cap_ls_done\<close>; what
  is proved of \<open>cap_ls_done\<close> holds for every such list.
\<close>

definition cap_ls_done :: "'c env \<Rightarrow> 'c list \<Rightarrow> 'c server \<Rightarrow> 'c server" where
  "cap_ls_done E queued s =
     (let caps = CAPS E @ queued;
          s1 = s\<lparr>cap_queue := {}\<rparr>;
          caps' = (if sasl (conn_params s1) \<noteq> None then caps @ [CAP_SASL E] else caps);
          matches = filter_bool (map (\<lambda>c. available E c (dom (available_caps s1))) caps')
      in if matches \<noteq> [] then
           send (build ''CAP'' [''REQ'', join '' '' matches]) (DEFAULT E)
             (s1\<lparr>requested_caps := matches\<rparr>)
         else s1)"

text \<open>The part of \<open>_cap_ack\<close> after the SASL hand-off: the \<open>for\<close> loop over the tokens and
  the test that sends \<open>CAP END\<close>.\<close>

definition cap_ack_tokens :: "'c env \<Rightarrow> emit \<Rightarrow> 'c server \<Rightarrow> 'c server" where
  "cap_ack_tokens E em s =
     (let toks = (case tokens em of None \<Rightarrow> [] | Some ts \<Rightarrow> ts);
          req = fold (\<lambda>cap r. if cap \<in> set r then remove1 cap r else r) toks (requested_caps s);
          s1 = s\<lparr>requested_caps := req\<rparr>
      in if req = [] then send (build ''CAP'' [''END'']) (DEFAULT E) s1 else s1)"

definition cap_ack :: "'c env \<Rightarrow> emit \<Rightarrow> 'c server \<Rightarrow> (unit, 'c) task" where
  "cap_ack E em s =
     (case sasl (conn_params s) of
        None \<Rightarrow> Return () (cap_ack_tokens E em s)
      | Some p \<Rightarrow>
          if cap_agreed E (CAP_SASL E) s then
            (if mechanism p = ''USERPASS'' then
               bind (sasl_userpass E
                       (case sasl_username p of None \<Rightarrow> [] | Some u \<Rightarrow> u)
                       (case sasl_password p of None \<Rightarrow> [] | Some w \<Rightarrow> w) s)
                 (\<lambda>r s'. Return () (cap_ack_tokens E em s'))
             else if mechanism p = ''EXTERNAL'' then
               bind (sasl_external E s) (\<lambda>r s'. Return () (cap_ack_tokens E em s'))
             else Return () (cap_ack_tokens E em s))
          else Return () (cap_ack_tokens E em s))"

definition on_read_emit ::
  "'c env \<Rightarrow> 'c list \<Rightarrow> line \<Rightarrow> emit \<Rightarrow> 'c server \<Rightarrow> (unit, 'c) task" where
  "on_read_emit E queued l em s =
     (if emit_command em = ''CAP'' then
        (if subcommand em = ''LS'' \<and> finished em then Return () (cap_ls_done E queued s)
         else if subcommand em \<in> set [''ACK'', ''NAK''] then cap_ack E em s
         else Return () s)
      else Return () s)"

text \<open>\<open>emit.tokens or []\<close>.\<close>

definition emit_tokens :: "emit \<Rightarrow> string list" where
  "emit_tokens em = (case tokens em of None \<Rightarrow> [] | Some ts \<Rightarrow> ts)"


section \<open>Teardown\<close>

text \<open>
  \<open>Future.set_exception\<close> raises \<open>InvalidStateError\<close> on a future that is no longer pending.
\<close>

definition set_exception :: "nat \<Rightarrow> error \<Rightarrow> 'c server \<Rightarrow> error + 'c server" where
  "set_exception fut e s =
     (if fut < length (futures s) \<and> futures s ! fut = Pending
      then Inr (s\<lparr>futures := (futures s)[fut := Exception e]\<rparr>)
      else Inl InvalidStateError)"

text \<open>
  Modelled from the spec: the loop of the connection teardown over the wait registry.
  \<open>server.py\<close> contains no teardown: nothing in it sets an exception on a future of
  \<open>_wait_for\<close>. "A pending wait that is never matched remains until connection teardown, at
  which point all outstanding waits fail with a connection-closed error."
\<close>

fun teardown_loop :: "((line \<Rightarrow> bool) \<times> nat) list \<Rightarrow> 'c server \<Rightarrow> error + 'c server" where
  "teardown_loop [] s = Inr s"
| "teardown_loop ((response, fut) # rest) s =
     (case set_exception fut ConnectionClosedError s of
        Inl e \<Rightarrow> Inl e
      | Inr s' \<Rightarrow> teardown_loop rest s')"

text \<open>
  Modelled from the spec: the connection teardown, as far as the wait registry goes: it
  "must fail every outstanding WaitRegistry entry exactly once with a connection-closed
  error"; "once resolved it is removed from the registry".
\<close>

definition teardown :: "'c server \<Rightarrow> error + 'c server" where
  "teardown s =
     (case teardown_loop (wait_for_list s) s of
        Inl e \<Rightarrow> Inl e
      | Inr s' \<Rightarrow> Inr (s'\<lparr>wait_for_list := []\<rparr>))"

section \<open>Example configurations\<close>

text \<open>An environment where a capability is its own name and is available when offered, and
  a server that has just been created, without SASL parameters.\<close>

definition demo_env :: "string env" where
  "demo_env = \<lparr>CAPS = [], CAP_SASL = ''sasl'',
     available = (\<lambda>c offered. if c \<in> offered then Some c else None), DEFAULT = 10\<rparr>"

definition demo_server :: "string server" where
  "demo_server = \<lparr>write_queue = [], cap_queue = {}, requested_caps = [], wait_for_list = [],
     futures = [], conn_params = \<lparr>sasl = None\<rparr>, available_caps = Map.empty,
     agreed_caps = [], writer = []\<rparr>"

text \<open>Two outstanding waits that both match the numeric 904.\<close>

definition two_waits :: "string server" where
  "two_waits = snd (wait_for (Response ''AUTHENTICATE'' [ParamAny] [''904''])
                 (snd (wait_for (Numerics [''903'', ''904'']) demo_server)))"

text \<open>A server to which CAP LS 302 advertised \<open>sasl=PLAIN,SCRAM-SHA-256\<close>.\<close>

definition v32_server :: "string server" where
  "v32_server = demo_server\<lparr>available_caps := [''sasl'' \<mapsto> Some ''PLAIN,SCRAM-SHA-256'']\<rparr>"

text \<open>A server to which \<open>sasl=OAUTHBEARER\<close> was advertised.\<close>

definition oauth_server :: "string server" where
  "oauth_server = demo_server\<lparr>available_caps := [''sasl'' \<mapsto> Some ''OAUTHBEARER'']\<rparr>"

text \<open>A server to which \<open>sasl\<close> was advertised without a value (CAP 3.1).\<close>

definition pre32_server :: "string server" where
  "pre32_server = demo_server\<lparr>available_caps := [''sasl'' \<mapsto> None]\<rparr>"

text \<open>A server to which \<open>sasl=PLAIN\<close> was advertised.\<close>

definition plain_server :: "string server" where
  "plain_server = demo_server\<lparr>available_caps := [''sasl'' \<mapsto> Some ''PLAIN'']\<rparr>"

text \<open>Four lines sent with the same priority, and three lines sent with decreasing
  urgency.\<close>

definition four_lines :: "(line \<times> int) list" where
  "four_lines = [(build ''PRIVMSG'' [''#chan'', ''one''], 10), (build ''PRIVMSG'' [''#chan'', ''two''], 10),
                 (build ''PRIVMSG'' [''#chan'', ''three''], 10), (build ''PRIVMSG'' [''#chan'', ''four''], 10)]"

definition three_lines :: "(line \<times> int) list" where
  "three_lines = [(build ''PRIVMSG'' [''#chan'', ''low''], 20), (build ''PRIVMSG'' [''#chan'', ''default''], 10),
                  (build ''PONG'' [''token''], 0)]"



text \<open>An environment with a built-in capability, and a server with SASL parameters to
  which the built-in capability, \<open>a\<close> and \<open>sasl\<close> are advertised while \<open>a\<close> and \<open>b\<close> are
  queued.\<close>

definition builtin_env :: "string env" where
  "builtin_env = \<lparr>CAPS = [''multi-prefix''], CAP_SASL = ''sasl'',
     available = (\<lambda>c offered. if c \<in> offered then Some c else None), DEFAULT = 10\<rparr>"

definition offered_three :: "string server" where
  "offered_three = queue_capability ''b'' (queue_capability ''a''
     (demo_server\<lparr>
        available_caps := [''multi-prefix'' \<mapsto> None, ''a'' \<mapsto> None, ''sasl'' \<mapsto> Some ''PLAIN''],
        conn_params := \<lparr>sasl = Some \<lparr>mechanism = ''USERPASS'', sasl_username = Some ''alice'',
                                     sasl_password = Some ''secret''\<rparr>\<rparr>\<rparr>))"

text \<open>CAP ACK and CAP NAK messages.\<close>

definition ack :: "string list \<Rightarrow> emit" where
  "ack ts = \<lparr>emit_command = ''CAP'', subcommand = ''ACK'', finished = True, tokens = Some ts\<rparr>"


text \<open>SASL EXTERNAL is configured and \<open>sasl\<close> is agreed, while two capabilities are still
  requested.\<close>

definition ext_server :: "string server" where
  "ext_server = demo_server\<lparr>
     conn_params := \<lparr>sasl = Some \<lparr>mechanism = ''EXTERNAL'', sasl_username = None,
                                  sasl_password = None\<rparr>\<rparr>,
     agreed_caps := [''sasl''],
     requested_caps := [''sasl'', ''multi-prefix'']\<rparr>"

section \<open>The wait registry\<close>

lemma loop_no_match:
  "\<forall>e\<in>set es. \<not> fst e l \<Longrightarrow> on_read_line_loop l i es s = Inr s"
  by (induction es arbitrary: i) auto

lemma loop_first_match:
  "k < length es \<Longrightarrow> fst (es ! k) l \<Longrightarrow> \<forall>j<k. \<not> fst (es ! j) l \<Longrightarrow>
   on_read_line_loop l i es s =
     set_result (snd (es ! k)) l (s\<lparr>wait_for_list := pop (i + k) (wait_for_list s)\<rparr>)"
proof (induction es arbitrary: i k)
  case Nil
  then show ?case by simp
next
  case (Cons e es)
  obtain r f where e: "e = (r, f)" by (cases e)
  show ?case
  proof (cases k)
    case 0
    with Cons.prems e show ?thesis by simp
  next
    case (Suc k')
    from Cons.prems Suc have nm: "\<not> r l" using e by auto
    have "\<forall>j<k'. \<not> fst (es ! j) l" using Cons.prems(3) Suc by auto
    with Cons.IH[of k' "Suc i"] Cons.prems Suc nm e show ?thesis by simp
  qed
qed

lemma first_match_exists:
  "\<exists>e\<in>set es. P e \<Longrightarrow> \<exists>k<length es. P (es ! k) \<and> (\<forall>j<k. \<not> P (es ! j))"
proof -
  assume "\<exists>e\<in>set es. P e"
  then have ex: "\<exists>k. k < length es \<and> P (es ! k)" by (auto simp: in_set_conv_nth)
  define k where "k = (LEAST k. k < length es \<and> P (es ! k))"
  have a: "k < length es \<and> P (es ! k)" unfolding k_def using ex by (rule LeastI_ex)
  have b: "\<forall>j<k. \<not> P (es ! j)"
  proof (intro allI impI notI)
    fix j assume "j < k" "P (es ! j)"
    then have "j < length es \<and> P (es ! j)" using a by simp
    then have "k \<le> j" unfolding k_def by (rule Least_le)
    with \<open>j < k\<close> show False by simp
  qed
  from a b show ?thesis by blast
qed

lemma pop_distinct:
  assumes "distinct xs" "k < length xs"
  shows "distinct (pop k xs)" "xs ! k \<notin> set (pop k xs)" "set (pop k xs) = set xs - {xs ! k}"
proof -
  have xs: "xs = take k xs @ xs ! k # drop (Suc k) xs"
    using assms(2) by (rule id_take_nth_drop)
  have d: "distinct (take k xs @ xs ! k # drop (Suc k) xs)" using assms(1) xs by simp
  from d show "distinct (pop k xs)" by (simp add: pop_def)
  from d show "xs ! k \<notin> set (pop k xs)" by (simp add: pop_def)
  have "set xs = set (take k xs @ xs ! k # drop (Suc k) xs)" using xs by simp
  with d show "set (pop k xs) = set xs - {xs ! k}" by (auto simp: pop_def)
qed

lemma map_pop: "map f (pop k xs) = pop k (map f xs)"
  by (simp add: pop_def take_map drop_map)

lemma set_pop_subset: "set (pop k xs) \<subseteq> set xs"
  by (auto simp: pop_def dest: in_set_takeD in_set_dropD)

lemma pop_keeps:
  assumes "j < length xs" "j \<noteq> k"
  shows "xs ! j \<in> set (pop k xs)"
proof (cases "j < k")
  case True
  then have "xs ! j = take k xs ! j" by simp
  moreover have "j < length (take k xs)" using True assms by simp
  ultimately have "xs ! j \<in> set (take k xs)" by (metis nth_mem)
  then show ?thesis by (simp add: pop_def)
next
  case False
  with assms have "Suc k \<le> j" by simp
  then obtain d where d: "j = Suc k + d" using le_Suc_ex by blast
  have "d < length (drop (Suc k) xs)" using assms d by simp
  then have "drop (Suc k) xs ! d \<in> set (drop (Suc k) xs)" by (rule nth_mem)
  moreover have "drop (Suc k) xs ! d = xs ! j" using assms d by simp
  ultimately show ?thesis by (simp add: pop_def)
qed

lemma on_read_line_step:
  assumes ok: "registry_ok s"
  shows "\<exists>s'. on_read_line E l s = Inr s' \<and> registry_ok s' \<and>
     length (futures s') = length (futures s) \<and>
     (if \<exists>e\<in>set (wait_for_list s). fst e l
      then \<exists>k<length (wait_for_list s).
             fst (wait_for_list s ! k) l \<and>
             (\<forall>j<k. \<not> fst (wait_for_list s ! j) l) \<and>
             wait_for_list s' = take k (wait_for_list s) @ drop (Suc k) (wait_for_list s) \<and>
             futures s ! snd (wait_for_list s ! k) = Pending \<and>
             futures s' = (futures s)[snd (wait_for_list s ! k) := Result l] \<and>
             snd (wait_for_list s ! k) \<notin> snd ` set (wait_for_list s') \<and>
             (\<forall>j<length (wait_for_list s). j \<noteq> k \<longrightarrow>
                wait_for_list s ! j \<in> set (wait_for_list s') \<and>
                futures s' ! snd (wait_for_list s ! j) = Pending)
      else wait_for_list s' = wait_for_list s \<and> futures s' = futures s)"
proof (cases "\<exists>e\<in>set (wait_for_list s). fst e l")
  case False
  then have "on_read_line_loop l 0 (wait_for_list s) s = Inr s"
    by (intro loop_no_match) simp
  then show ?thesis using False ok
    by (auto simp: on_read_line_def send_def registry_ok_def)
next
  case True
  let ?wl = "wait_for_list s"
  from first_match_exists[OF True] obtain k where
    k: "k < length ?wl" "fst (?wl ! k) l" "\<forall>j<k. \<not> fst (?wl ! j) l" by blast
  let ?f = "snd (?wl ! k)"
  have mem: "?wl ! k \<in> set ?wl" using k(1) by simp
  from ok have allp: "\<forall>e\<in>set ?wl. snd e < length (futures s) \<and> futures s ! snd e = Pending"
    by (simp add: registry_ok_def list_all_iff)
  with mem have f: "?f < length (futures s)" "futures s ! ?f = Pending"
    by blast+
  from ok have dist: "distinct (map snd ?wl)" by (simp add: registry_ok_def)
  let ?s1 = "s\<lparr>wait_for_list := pop k ?wl, futures := (futures s)[?f := Result l]\<rparr>"
  have loop: "on_read_line_loop l 0 ?wl s = Inr ?s1"
    using loop_first_match[OF k, of 0 s] f by (simp add: set_result_def)
  have nf: "?f \<notin> snd ` set (pop k ?wl)"
    using pop_distinct(2)[OF dist, of k] k(1) by (simp add: map_pop[symmetric])
  have d1: "distinct (map snd (pop k ?wl))"
    using pop_distinct(1)[OF dist, of k] k(1) by (simp add: map_pop)
  have pend: "\<forall>e\<in>set (pop k ?wl). snd e < length (futures s) \<and>
      (futures s)[?f := Result l] ! snd e = Pending"
  proof
    fix e assume e: "e \<in> set (pop k ?wl)"
    have "set (pop k ?wl) \<subseteq> set ?wl" by (rule set_pop_subset)
    with e have ew: "e \<in> set ?wl" by (rule rev_subsetD)
    from ok have "\<forall>e\<in>set ?wl. snd e < length (futures s) \<and> futures s ! snd e = Pending"
      by (simp add: registry_ok_def list_all_iff)
    with ew have "snd e < length (futures s)" "futures s ! snd e = Pending"
      by blast+
    moreover have "snd e \<noteq> ?f" using nf e by (metis imageI)
    ultimately show "snd e < length (futures s) \<and>
      (futures s)[?f := Result l] ! snd e = Pending" by simp
  qed
  have ok1: "registry_ok ?s1" using d1 pend by (simp add: registry_ok_def list_all_iff)
  have others: "\<forall>j<length ?wl. j \<noteq> k \<longrightarrow>
       ?wl ! j \<in> set (pop k ?wl) \<and> (futures s)[?f := Result l] ! snd (?wl ! j) = Pending"
  proof (intro allI impI)
    fix j assume j: "j < length ?wl" "j \<noteq> k"
    then have m: "?wl ! j \<in> set (pop k ?wl)" by (rule pop_keeps)
    with pend show "?wl ! j \<in> set (pop k ?wl) \<and>
        (futures s)[?f := Result l] ! snd (?wl ! j) = Pending" by blast
  qed
  define s' where "s' = (if command l = ''PING''
      then send (build ''PONG'' (params l)) (DEFAULT E) ?s1 else ?s1)"
  have s'w: "wait_for_list s' = pop k ?wl" and s'f: "futures s' = (futures s)[?f := Result l]"
    by (simp_all add: s'_def send_def)
  have res: "on_read_line E l s = Inr s'" using loop by (simp add: on_read_line_def s'_def)
  have ok': "registry_ok s'" using ok1 by (simp add: registry_ok_def s'w s'f)
  have pk: "pop k ?wl = take k ?wl @ drop (Suc k) ?wl" by (simp add: pop_def)
  have main: "\<exists>k<length ?wl.
             fst (?wl ! k) l \<and>
             (\<forall>j<k. \<not> fst (?wl ! j) l) \<and>
             wait_for_list s' = take k ?wl @ drop (Suc k) ?wl \<and>
             futures s ! snd (?wl ! k) = Pending \<and>
             futures s' = (futures s)[snd (?wl ! k) := Result l] \<and>
             snd (?wl ! k) \<notin> snd ` set (wait_for_list s') \<and>
             (\<forall>j<length ?wl. j \<noteq> k \<longrightarrow>
                ?wl ! j \<in> set (wait_for_list s') \<and>
                futures s' ! snd (?wl ! j) = Pending)"
    unfolding s'w s'f
    apply (rule exI[of _ k])
    apply (intro conjI)
    using k(1) apply assumption
    using k(2) apply assumption
    using k(3) apply assumption
    using pk apply assumption
    using f(2) apply assumption
    apply (rule refl)
    using nf apply assumption
    using others apply assumption
    done
  have len: "length (futures s') = length (futures s)" by (simp add: s'f)
  show ?thesis
    apply (rule exI[of _ s'])
    apply (simp only: True if_True)
    using res ok' len main by blast
qed


lemma on_read_line_keep:
  assumes ok: "registry_ok s"
  shows "\<exists>s'. on_read_line E l s = Inr s' \<and> registry_ok s' \<and>
     length (futures s') = length (futures s) \<and>
     (\<forall>f. futures s ! f \<noteq> Pending \<longrightarrow> futures s' ! f = futures s ! f)"
proof -
  from on_read_line_step[OF ok, of E l] obtain s' where
    r: "on_read_line E l s = Inr s'" and ok': "registry_ok s'" and
    len: "length (futures s') = length (futures s)" and
    c: "if \<exists>e\<in>set (wait_for_list s). fst e l
      then \<exists>k<length (wait_for_list s).
             fst (wait_for_list s ! k) l \<and>
             (\<forall>j<k. \<not> fst (wait_for_list s ! j) l) \<and>
             wait_for_list s' = take k (wait_for_list s) @ drop (Suc k) (wait_for_list s) \<and>
             futures s ! snd (wait_for_list s ! k) = Pending \<and>
             futures s' = (futures s)[snd (wait_for_list s ! k) := Result l] \<and>
             snd (wait_for_list s ! k) \<notin> snd ` set (wait_for_list s') \<and>
             (\<forall>j<length (wait_for_list s). j \<noteq> k \<longrightarrow>
                wait_for_list s ! j \<in> set (wait_for_list s') \<and>
                futures s' ! snd (wait_for_list s ! j) = Pending)
      else wait_for_list s' = wait_for_list s \<and> futures s' = futures s"
    by blast
  have "\<forall>f. futures s ! f \<noteq> Pending \<longrightarrow> futures s' ! f = futures s ! f"
  proof (cases "\<exists>e\<in>set (wait_for_list s). fst e l")
    case False
    with c show ?thesis by simp
  next
    case True
    with c obtain k where
      p: "futures s ! snd (wait_for_list s ! k) = Pending" and
      u: "futures s' = (futures s)[snd (wait_for_list s ! k) := Result l]"
      by auto
    show ?thesis
    proof (intro allI impI)
      fix f assume "futures s ! f \<noteq> Pending"
      with p have "f \<noteq> snd (wait_for_list s ! k)" by auto
      then show "futures s' ! f = futures s ! f" unfolding u by simp
    qed
  qed
  with r ok' len show ?thesis by blast
qed

lemma on_read_lines_keep:
  "registry_ok s \<Longrightarrow>
   \<exists>s'. on_read_lines E ls s = Inr s' \<and> registry_ok s' \<and>
     length (futures s') = length (futures s) \<and>
     (\<forall>f. futures s ! f \<noteq> Pending \<longrightarrow> futures s' ! f = futures s ! f)"
proof (induction ls arbitrary: s)
  case Nil
  then show ?case by simp
next
  case (Cons l ls)
  from on_read_line_keep[OF Cons.prems, of E l] obtain s1 where
    r1: "on_read_line E l s = Inr s1" and ok1: "registry_ok s1" and
    len1: "length (futures s1) = length (futures s)" and
    k1: "\<forall>f. futures s ! f \<noteq> Pending \<longrightarrow> futures s1 ! f = futures s ! f"
    by blast
  from Cons.IH[OF ok1] obtain s2 where
    r2: "on_read_lines E ls s1 = Inr s2" and ok2: "registry_ok s2" and
    len2: "length (futures s2) = length (futures s1)" and
    k2: "\<forall>f. futures s1 ! f \<noteq> Pending \<longrightarrow> futures s2 ! f = futures s1 ! f"
    by blast
  have "on_read_lines E (l # ls) s = Inr s2" using r1 r2 by simp
  moreover have "length (futures s2) = length (futures s)" using len1 len2 by simp
  moreover have "\<forall>f. futures s ! f \<noteq> Pending \<longrightarrow> futures s2 ! f = futures s ! f"
  proof (intro allI impI)
    fix f assume a: "futures s ! f \<noteq> Pending"
    with k1 have e: "futures s1 ! f = futures s ! f" by blast
    with a k2 have "futures s2 ! f = futures s1 ! f" by simp
    with e show "futures s2 ! f = futures s ! f" by simp
  qed
  ultimately show ?case using ok2 by blast
qed

lemma registry_ok_initial: "wait_for_list s = [] \<Longrightarrow> registry_ok s"
  by (simp add: registry_ok_def)

lemma wait_for_registry_ok:
  assumes "registry_ok s"
  shows "registry_ok (snd (wait_for response s))"
proof -
  from assms have d: "distinct (map snd (wait_for_list s))"
    and p: "\<forall>e\<in>set (wait_for_list s). snd e < length (futures s) \<and> futures s ! snd e = Pending"
    by (simp_all add: registry_ok_def list_all_iff)
  have fresh: "length (futures s) \<notin> snd ` set (wait_for_list s)"
  proof
    assume "length (futures s) \<in> snd ` set (wait_for_list s)"
    then obtain e where "e \<in> set (wait_for_list s)" "snd e = length (futures s)" by auto
    with p show False by auto
  qed
  have old: "\<forall>e\<in>set (wait_for_list s).
      snd e < Suc (length (futures s)) \<and> (futures s @ [Pending]) ! snd e = Pending"
  proof
    fix e assume "e \<in> set (wait_for_list s)"
    with p have "snd e < length (futures s)" "futures s ! snd e = Pending" by auto
    then show "snd e < Suc (length (futures s)) \<and> (futures s @ [Pending]) ! snd e = Pending"
      by (simp add: nth_append)
  qed
  show ?thesis
    using d fresh old by (simp add: registry_ok_def wait_for_def Let_def list_all_iff)
qed

lemma send_registry_ok: "registry_ok s \<Longrightarrow> registry_ok (send l prio s)"
  by (simp add: registry_ok_def send_def)

text \<open>
  Claim C1. For every inbound line, \<open>_on_read_line\<close> scans the wait registry in registration
  order and resolves exactly the first entry whose matcher matches the line: that entry is
  removed and its future, pending until then, gets the line as its result. Every other entry
  stays in the registry with its future pending, so at most one entry is resolved per line and
  of two waits that match the same line only the one registered first resolves. When no entry
  matches, registry and futures are unchanged. A future that holds a result is never set again
  by any later lines: every entry is resolved at most once.
\<close>

theorem on_read_line_resolves_first_match:
  assumes ok: "registry_ok s"
  shows "\<exists>s'. on_read_line E l s = Inr s' \<and> registry_ok s' \<and>
     length (futures s') = length (futures s) \<and>
     (if \<exists>e\<in>set (wait_for_list s). fst e l
      then \<exists>k<length (wait_for_list s).
             fst (wait_for_list s ! k) l \<and>
             (\<forall>j<k. \<not> fst (wait_for_list s ! j) l) \<and>
             wait_for_list s' = take k (wait_for_list s) @ drop (Suc k) (wait_for_list s) \<and>
             futures s ! snd (wait_for_list s ! k) = Pending \<and>
             futures s' = (futures s)[snd (wait_for_list s ! k) := Result l] \<and>
             snd (wait_for_list s ! k) \<notin> snd ` set (wait_for_list s') \<and>
             (\<forall>j<length (wait_for_list s). j \<noteq> k \<longrightarrow>
                wait_for_list s ! j \<in> set (wait_for_list s') \<and>
                futures s' ! snd (wait_for_list s ! j) = Pending)
      else wait_for_list s' = wait_for_list s \<and> futures s' = futures s) \<and>
     (\<forall>ls. \<exists>s''. on_read_lines E ls s' = Inr s'' \<and>
        (\<forall>f. futures s' ! f \<noteq> Pending \<longrightarrow> futures s'' ! f = futures s' ! f))"
proof -
  from on_read_line_step[OF ok, of E l] obtain s' where
    r: "on_read_line E l s = Inr s'" and ok': "registry_ok s'" and
    rest: "length (futures s') = length (futures s) \<and>
     (if \<exists>e\<in>set (wait_for_list s). fst e l
      then \<exists>k<length (wait_for_list s).
             fst (wait_for_list s ! k) l \<and>
             (\<forall>j<k. \<not> fst (wait_for_list s ! j) l) \<and>
             wait_for_list s' = take k (wait_for_list s) @ drop (Suc k) (wait_for_list s) \<and>
             futures s ! snd (wait_for_list s ! k) = Pending \<and>
             futures s' = (futures s)[snd (wait_for_list s ! k) := Result l] \<and>
             snd (wait_for_list s ! k) \<notin> snd ` set (wait_for_list s') \<and>
             (\<forall>j<length (wait_for_list s). j \<noteq> k \<longrightarrow>
                wait_for_list s ! j \<in> set (wait_for_list s') \<and>
                futures s' ! snd (wait_for_list s ! j) = Pending)
      else wait_for_list s' = wait_for_list s \<and> futures s' = futures s)"
    by blast
  have "\<forall>ls. \<exists>s''. on_read_lines E ls s' = Inr s'' \<and>
        (\<forall>f. futures s' ! f \<noteq> Pending \<longrightarrow> futures s'' ! f = futures s' ! f)"
  proof
    fix ls
    from on_read_lines_keep[OF ok', of E ls]
    show "\<exists>s''. on_read_lines E ls s' = Inr s'' \<and>
        (\<forall>f. futures s' ! f \<noteq> Pending \<longrightarrow> futures s'' ! f = futures s' ! f)" by blast
  qed
  with r ok' rest show ?thesis by blast
qed

theorem on_read_line_resolves_first_match_witness:
  "registry_ok two_waits \<and>
   (\<exists>s'. on_read_line demo_env (build ''904'' []) two_waits = Inr s' \<and>
      futures s' = [Result (build ''904'' []), Pending] \<and>
      map snd (wait_for_list s') = [1])"
proof -
  have ok: "registry_ok two_waits"
    by (simp add: two_waits_def demo_server_def wait_for_def registry_ok_def Let_def)
  have w: "wait_for_list two_waits =
     [(Numerics [''903'', ''904''], 0), (Response ''AUTHENTICATE'' [ParamAny] [''904''], 1)]"
    and f: "futures two_waits = [Pending, Pending]"
    by (simp_all add: two_waits_def demo_server_def wait_for_def Let_def)
  have m: "Numerics [''903'', ''904''] (build ''904'' [])"
    "Response ''AUTHENTICATE'' [ParamAny] [''904''] (build ''904'' [])"
    by (simp_all add: Numerics_def Response_def build_def)
  from on_read_line_resolves_first_match[OF ok, of demo_env "build ''904'' []"]
  obtain s' k where r: "on_read_line demo_env (build ''904'' []) two_waits = Inr s'"
    and k: "k < length (wait_for_list two_waits)"
       "\<forall>j<k. \<not> fst (wait_for_list two_waits ! j) (build ''904'' [])"
       "wait_for_list s' = take k (wait_for_list two_waits) @ drop (Suc k) (wait_for_list two_waits)"
       "futures s' = (futures two_waits)[snd (wait_for_list two_waits ! k) := Result (build ''904'' [])]"
    using m w by auto
  have "k = 0"
  proof (rule ccontr)
    assume "k \<noteq> 0"
    then have "0 < k" by simp
    with k(2) have "\<not> fst (wait_for_list two_waits ! 0) (build ''904'' [])" by blast
    with m w show False by simp
  qed
  with k w f have c: "futures s' = [Result (build ''904'' []), Pending]"
    "map snd (wait_for_list s') = [1]" by simp_all
  show ?thesis
    apply (rule conjI[OF ok])
    apply (rule exI[of _ s'])
    using r c by simp
qed

section \<open>The write queue\<close>

lemma parent_less: "0 < (i::nat) \<Longrightarrow> (i - 1) div 2 < i"
  by arith

lemma sift_inv_step:
  assumes inv: "sift_inv h p x" and p: "0 < p" "p < length h"
    and less: "lt x (h ! ((p - 1) div 2))"
  shows "sift_inv (h[p := h ! ((p - 1) div 2)]) ((p - 1) div 2) x"
proof -
  let ?q = "(p - 1) div 2"
  let ?h = "h[p := h ! ?q]"
  have qp: "?q < p" using p(1) by (rule parent_less)
  have xq: "priority x < priority (h ! ?q)" using less by (simp add: lt_def)
  from inv have a: "\<And>i. 0 < i \<Longrightarrow> i < length h \<Longrightarrow> i \<noteq> p \<Longrightarrow> (i - 1) div 2 \<noteq> p \<Longrightarrow>
           priority (h ! ((i - 1) div 2)) \<le> priority (h ! i)"
    and b: "\<And>i. 0 < i \<Longrightarrow> i < length h \<Longrightarrow> (i - 1) div 2 = p \<Longrightarrow>
           priority (h ! ?q) \<le> priority (h ! i)"
    using p by (auto simp: sift_inv_def hole_inv_def)
  have a': "\<forall>i. 0 < i \<and> i < length ?h \<and> i \<noteq> ?q \<and> (i - 1) div 2 \<noteq> ?q \<longrightarrow>
           priority (?h ! ((i - 1) div 2)) \<le> priority (?h ! i)"
  proof (intro allI impI)
    fix i assume i: "0 < i \<and> i < length ?h \<and> i \<noteq> ?q \<and> (i - 1) div 2 \<noteq> ?q"
    then have ip: "i \<noteq> p" by auto
    show "priority (?h ! ((i - 1) div 2)) \<le> priority (?h ! i)"
    proof (cases "(i - 1) div 2 = p")
      case True
      then have "priority (h ! ?q) \<le> priority (h ! i)" using b i by simp
      then show ?thesis using True ip p by simp
    next
      case False
      then have "priority (h ! ((i - 1) div 2)) \<le> priority (h ! i)" using a i ip by simp
      then show ?thesis using False ip by simp
    qed
  qed
  have qa: "0 < ?q \<Longrightarrow> priority (h ! ((?q - 1) div 2)) \<le> priority (h ! ?q)"
  proof -
    assume q0: "0 < ?q"
    have "(?q - 1) div 2 < ?q" using q0 by simp
    then have "(?q - 1) div 2 \<noteq> p" using qp by simp
    then show ?thesis using a[of ?q] q0 qp p by simp
  qed
  have sib: "\<And>i. 0 < i \<Longrightarrow> i < length h \<Longrightarrow> i \<noteq> p \<Longrightarrow> (i - 1) div 2 = ?q \<Longrightarrow>
      priority (h ! ?q) \<le> priority (h ! i)"
  proof -
    fix i assume i: "0 < i" "i < length h" "i \<noteq> p" "(i - 1) div 2 = ?q"
    then have "(i - 1) div 2 \<noteq> p" using qp by simp
    from a[OF i(1) i(2) i(3) this] show "priority (h ! ?q) \<le> priority (h ! i)" using i(4) by simp
  qed
  have b': "\<forall>i. 0 < i \<and> i < length ?h \<and> (i - 1) div 2 = ?q \<and> 0 < ?q \<longrightarrow>
           priority (?h ! ((?q - 1) div 2)) \<le> priority (?h ! i)"
  proof (intro allI impI)
    fix i assume i: "0 < i \<and> i < length ?h \<and> (i - 1) div 2 = ?q \<and> 0 < ?q"
    then have q0: "0 < ?q" by simp
    have "(?q - 1) div 2 < ?q" using q0 by (rule parent_less)
    then have gp: "(?q - 1) div 2 \<noteq> p" using qp by simp
    have g: "?h ! ((?q - 1) div 2) = h ! ((?q - 1) div 2)" using gp by simp
    have top: "priority (h ! ((?q - 1) div 2)) \<le> priority (h ! ?q)" using qa q0 by simp
    show "priority (?h ! ((?q - 1) div 2)) \<le> priority (?h ! i)"
    proof (cases "i = p")
      case True
      have e: "?h ! i = h ! ?q" using True p by simp
      show ?thesis unfolding g e by (rule top)
    next
      case False
      have e: "?h ! i = h ! i" using False by simp
      have "priority (h ! ?q) \<le> priority (h ! i)" using sib[of i] i False by simp
      with top show ?thesis unfolding g e by simp
    qed
  qed
  have c': "\<forall>i. 0 < i \<and> i < length ?h \<and> (i - 1) div 2 = ?q \<longrightarrow> priority x \<le> priority (?h ! i)"
  proof (intro allI impI)
    fix i assume i: "0 < i \<and> i < length ?h \<and> (i - 1) div 2 = ?q"
    show "priority x \<le> priority (?h ! i)"
    proof (cases "i = p")
      case True
      then show ?thesis using xq p by simp
    next
      case False
      have "priority (h ! ?q) \<le> priority (h ! i)" using sib[of i] i False by simp
      then show ?thesis using xq False by simp
    qed
  qed
  from a' b' c' show ?thesis unfolding sift_inv_def hole_inv_def by blast
qed

lemma sift_inv_done:
  assumes inv: "sift_inv h p x" and p: "p < length h"
    and stop: "p = 0 \<or> \<not> lt x (h ! ((p - 1) div 2))"
  shows "heap_ok (h[p := x])"
  unfolding heap_ok_def
proof (intro allI impI)
  fix i assume i: "0 < i \<and> i < length (h[p := x])"
  let ?g = "h[p := x]"
  show "priority (?g ! ((i - 1) div 2)) \<le> priority (?g ! i)"
  proof (cases "i = p")
    case True
    then have "0 < p" using i by simp
    with stop have "priority (h ! ((p - 1) div 2)) \<le> priority x" by (simp add: lt_def)
    moreover have "(p - 1) div 2 \<noteq> p" using \<open>0 < p\<close> by simp
    ultimately show ?thesis using True p by simp
  next
    case False
    show ?thesis
    proof (cases "(i - 1) div 2 = p")
      case True
      with inv i have "priority x \<le> priority (h ! i)" by (simp add: sift_inv_def)
      then show ?thesis using True False p by simp
    next
      case False2: False
      with inv i False have "priority (h ! ((i - 1) div 2)) \<le> priority (h ! i)"
        by (simp add: sift_inv_def hole_inv_def)
      then show ?thesis using False False2 by simp
    qed
  qed
qed

lemma siftdown_loop_props:
  "p < length h \<Longrightarrow>
   (case siftdown_loop h x sp p of (h', q) \<Rightarrow>
      length h' = length h \<and> q \<le> p \<and>
      mset (h'[q := x]) = mset (h[p := x]) \<and>
      (sp = 0 \<and> sift_inv h p x \<longrightarrow> heap_ok (h'[q := x])))"
proof (induction h x sp p rule: siftdown_loop.induct)
  case (1 heap newitem startpos pos)
  let ?q = "(pos - 1) div 2"
  show ?case
  proof (cases "pos > startpos \<and> lt newitem (heap ! ?q)")
    case True
    then have "0 < pos" by simp
    then have qp: "?q < pos" by (rule parent_less)
    let ?h1 = "heap[pos := heap ! ?q]"
    have eq: "siftdown_loop heap newitem startpos pos = siftdown_loop ?h1 newitem startpos ?q"
      using True by (subst siftdown_loop.simps) (simp add: Let_def)
    have len: "?q < length ?h1" using qp "1.prems" by simp
    from True have c1: "startpos < pos" and c2: "lt newitem (heap ! ?q)" by simp_all
    from "1.IH"[OF c1 refl refl c2 len]
    have ih: "case siftdown_loop ?h1 newitem startpos ?q of (h', q) \<Rightarrow>
      length h' = length ?h1 \<and> q \<le> ?q \<and>
      mset (h'[q := newitem]) = mset (?h1[?q := newitem]) \<and>
      (startpos = 0 \<and> sift_inv ?h1 ?q newitem \<longrightarrow> heap_ok (h'[q := newitem]))" .
    have sw: "mset (?h1[?q := newitem]) = mset (heap[pos := newitem])"
    proof -
      let ?g = "heap[pos := newitem]"
      have "?h1[?q := newitem] = ?g[pos := ?g ! ?q, ?q := ?g ! pos]"
        using qp "1.prems" by (simp add: list_update_swap)
      moreover have "mset (?g[pos := ?g ! ?q, ?q := ?g ! pos]) = mset ?g"
        using qp "1.prems" by (intro mset_swap) simp_all
      ultimately show ?thesis by simp
    qed
    have st: "sift_inv heap pos newitem \<Longrightarrow> sift_inv ?h1 ?q newitem"
      using sift_inv_step[of heap pos newitem] \<open>0 < pos\<close> c2 "1.prems" by simp
    obtain h' q where r: "siftdown_loop ?h1 newitem startpos ?q = (h', q)" by (cases "siftdown_loop ?h1 newitem startpos ?q")
    from ih r have i1: "length h' = length ?h1" and i2: "q \<le> ?q"
      and i3: "mset (h'[q := newitem]) = mset (?h1[?q := newitem])"
      and i4: "startpos = 0 \<and> sift_inv ?h1 ?q newitem \<longrightarrow> heap_ok (h'[q := newitem])"
      by simp_all
    have "length h' = length heap" using i1 by simp
    moreover have "q \<le> pos" using i2 qp by simp
    moreover have "mset (h'[q := newitem]) = mset (heap[pos := newitem])" using i3 sw by simp
    moreover have "startpos = 0 \<and> sift_inv heap pos newitem \<longrightarrow> heap_ok (h'[q := newitem])"
      using i4 st by blast
    ultimately show ?thesis unfolding eq r by simp
  next
    case False
    then have eq: "siftdown_loop heap newitem startpos pos = (heap, pos)"
      by (subst siftdown_loop.simps) (auto simp: Let_def)
    have "startpos = 0 \<and> sift_inv heap pos newitem \<longrightarrow> heap_ok (heap[pos := newitem])"
    proof
      assume a: "startpos = 0 \<and> sift_inv heap pos newitem"
      with False have "pos = 0 \<or> \<not> lt newitem (heap ! ?q)" by auto
      with a "1.prems" show "heap_ok (heap[pos := newitem])"
        using sift_inv_done[of heap pos newitem] by blast
    qed
    then show ?thesis unfolding eq by simp
  qed
qed

lemma parent_child: "0 < (i::nat) \<Longrightarrow> ((i - 1) div 2 = p) = (i = 2 * p + 1 \<or> i = 2 * p + 2)"
  by arith

lemma siftdown_props:
  assumes "p < length h"
  shows "length (siftdown h sp p) = length h"
    and "mset (siftdown h sp p) = mset h"
    and "sift_inv h p (h ! p) \<Longrightarrow> heap_ok (siftdown h 0 p)"
proof -
  obtain h' q where r: "siftdown_loop h (h ! p) sp p = (h', q)"
    by (cases "siftdown_loop h (h ! p) sp p")
  from siftdown_loop_props[OF assms, of "h ! p" sp] r
  have 1: "length h' = length h" and 2: "mset (h'[q := h ! p]) = mset (h[p := h ! p])" by simp_all
  show "length (siftdown h sp p) = length h" using 1 r by (simp add: siftdown_def Let_def)
  show "mset (siftdown h sp p) = mset h" using 2 r by (simp add: siftdown_def Let_def)
  obtain h0 q0 where r0: "siftdown_loop h (h ! p) 0 p = (h0, q0)"
    by (cases "siftdown_loop h (h ! p) 0 p")
  from siftdown_loop_props[OF assms, of "h ! p" 0] r0
  have 3: "sift_inv h p (h ! p) \<longrightarrow> heap_ok (h0[q0 := h ! p])" by simp
  show "sift_inv h p (h ! p) \<Longrightarrow> heap_ok (siftdown h 0 p)"
    using 3 r0 by (simp add: siftdown_def Let_def)
qed

lemma heappush_length: "length (heappush h x) = Suc (length h)"
  by (simp add: heappush_def siftdown_props(1))

lemma heappush_mset: "mset (heappush h x) = add_mset x (mset h)"
  by (simp add: heappush_def siftdown_props(2))

lemma heappush_heap_ok:
  assumes "heap_ok h"
  shows "heap_ok (heappush h x)"
proof -
  let ?n = "length h"
  let ?g = "h @ [x]"
  have no_child: "\<And>i. 0 < i \<Longrightarrow> i < length ?g \<Longrightarrow> (i - 1) div 2 \<noteq> ?n"
  proof
    fix i assume i: "0 < i" "i < length ?g" "(i - 1) div 2 = ?n"
    then have "i = 2 * ?n + 1 \<or> i = 2 * ?n + 2" by (simp add: parent_child)
    with i(2) show False by auto
  qed
  have a: "\<forall>i. 0 < i \<and> i < length ?g \<and> i \<noteq> ?n \<and> (i - 1) div 2 \<noteq> ?n \<longrightarrow>
           priority (?g ! ((i - 1) div 2)) \<le> priority (?g ! i)"
  proof (intro allI impI)
    fix i assume i: "0 < i \<and> i < length ?g \<and> i \<noteq> ?n \<and> (i - 1) div 2 \<noteq> ?n"
    then have il: "i < ?n" by simp
    have "(i - 1) div 2 < i" using i by (intro parent_less) simp
    then have pl: "(i - 1) div 2 < ?n" using il by simp
    have e1: "?g ! i = h ! i" using il by (simp add: nth_append)
    have e2: "?g ! ((i - 1) div 2) = h ! ((i - 1) div 2)" using pl by (simp add: nth_append)
    from assms i il have "priority (h ! ((i - 1) div 2)) \<le> priority (h ! i)"
      by (simp add: heap_ok_def)
    then show "priority (?g ! ((i - 1) div 2)) \<le> priority (?g ! i)" unfolding e1 e2 .
  qed
  have inv: "sift_inv ?g ?n (?g ! ?n)"
    unfolding sift_inv_def hole_inv_def using a no_child by blast
  have "heap_ok (siftdown ?g 0 ?n)" by (rule siftdown_props(3)[OF _ inv]) simp
  then show ?thesis by (simp add: heappush_def)
qed

lemma hole_inv_step:
  assumes inv: "hole_inv h pos" and c: "2 * pos + 1 < length h"
  defines "c \<equiv> (if 2 * pos + 1 + 1 < length h \<and> \<not> lt (h ! (2 * pos + 1)) (h ! (2 * pos + 1 + 1))
                  then 2 * pos + 1 + 1 else 2 * pos + 1)"
  shows "hole_inv (h[pos := h ! c]) c"
proof -
  let ?h = "h[pos := h ! c]"
  have cc: "c = 2 * pos + 1 \<or> c = 2 * pos + 2" by (simp add: c_def)
  have cl: "c < length h" using c by (auto simp: c_def)
  have c0: "0 < c" "pos < c" using cc by auto
  have pc: "(c - 1) div 2 = pos" using cc by auto
  from inv have a: "\<And>i. 0 < i \<Longrightarrow> i < length h \<Longrightarrow> i \<noteq> pos \<Longrightarrow> (i - 1) div 2 \<noteq> pos \<Longrightarrow>
           priority (h ! ((i - 1) div 2)) \<le> priority (h ! i)"
    and b: "\<And>i. 0 < i \<Longrightarrow> i < length h \<Longrightarrow> (i - 1) div 2 = pos \<Longrightarrow> 0 < pos \<Longrightarrow>
           priority (h ! ((pos - 1) div 2)) \<le> priority (h ! i)"
    by (auto simp: hole_inv_def)
  have least: "\<And>i. 0 < i \<Longrightarrow> i < length h \<Longrightarrow> (i - 1) div 2 = pos \<Longrightarrow>
      priority (h ! c) \<le> priority (h ! i)"
  proof -
    fix i assume i: "0 < i" "i < length h" "(i - 1) div 2 = pos"
    then have "i = 2 * pos + 1 \<or> i = 2 * pos + 2" by arith
    then show "priority (h ! c) \<le> priority (h ! i)"
      using i(2) by (auto simp: c_def lt_def)
  qed
  have a': "\<forall>i. 0 < i \<and> i < length ?h \<and> i \<noteq> c \<and> (i - 1) div 2 \<noteq> c \<longrightarrow>
           priority (?h ! ((i - 1) div 2)) \<le> priority (?h ! i)"
  proof (intro allI impI)
    fix i assume i: "0 < i \<and> i < length ?h \<and> i \<noteq> c \<and> (i - 1) div 2 \<noteq> c"
    then have il: "i < length h" by simp
    show "priority (?h ! ((i - 1) div 2)) \<le> priority (?h ! i)"
    proof (cases "i = pos")
      case True
      then have p0: "0 < pos" using i by simp
      have "(pos - 1) div 2 < pos" using p0 by (rule parent_less)
      then have e1: "?h ! ((i - 1) div 2) = h ! ((pos - 1) div 2)" using True by simp
      have e2: "?h ! i = h ! c" using True il by simp
      show ?thesis unfolding e1 e2 using b[of c] c0 cl pc p0 by simp
    next
      case False
      then have e2: "?h ! i = h ! i" by simp
      show ?thesis
      proof (cases "(i - 1) div 2 = pos")
        case True
        have pl: "pos < length h" using c by simp
        have e1: "?h ! ((i - 1) div 2) = h ! c" using True pl by simp
        show ?thesis unfolding e1 e2 using least[of i] i il True by simp
      next
        case F2: False
        then have e1: "?h ! ((i - 1) div 2) = h ! ((i - 1) div 2)" by simp
        show ?thesis unfolding e1 e2 using a[of i] i il False F2 by simp
      qed
    qed
  qed
  have b': "\<forall>i. 0 < i \<and> i < length ?h \<and> (i - 1) div 2 = c \<and> 0 < c \<longrightarrow>
           priority (?h ! ((c - 1) div 2)) \<le> priority (?h ! i)"
  proof (intro allI impI)
    fix i assume i: "0 < i \<and> i < length ?h \<and> (i - 1) div 2 = c \<and> 0 < c"
    then have il: "i < length h" by simp
    have "(i - 1) div 2 < i" using i by (intro parent_less) simp
    then have ci: "c < i" using i by simp
    then have ip: "i \<noteq> pos" using c0 by simp
    have pl: "pos < length h" using c by simp
    have e1: "?h ! ((c - 1) div 2) = h ! c" unfolding pc using pl by simp
    have e2: "?h ! i = h ! i" using ip by simp
    have "(i - 1) div 2 \<noteq> pos" using i c0 by simp
    from a[OF _ il ip this] i have "priority (h ! c) \<le> priority (h ! i)" by simp
    then show "priority (?h ! ((c - 1) div 2)) \<le> priority (?h ! i)" unfolding e1 e2 .
  qed
  from a' b' show ?thesis unfolding hole_inv_def by blast
qed

lemma siftup_loop_props:
  "pos < length h \<Longrightarrow> endpos = length h \<Longrightarrow>
   (case siftup_loop h endpos pos of (h', q) \<Rightarrow>
      length h' = length h \<and> q < length h \<and>
      mset (h'[q := x]) = mset (h[pos := x]) \<and>
      length h \<le> 2 * q + 1 \<and>
      (hole_inv h pos \<longrightarrow> hole_inv h' q))"
proof (induction h endpos pos rule: siftup_loop.induct)
  case (1 heap endpos pos)
  let ?l = "2 * pos + 1"
  let ?c = "(if ?l + 1 < endpos \<and> \<not> lt (heap ! ?l) (heap ! (?l + 1)) then ?l + 1 else ?l)"
  show ?case
  proof (cases "?l < endpos")
    case True
    let ?h1 = "heap[pos := heap ! ?c]"
    have eq: "siftup_loop heap endpos pos = siftup_loop ?h1 endpos ?c"
      using True by (subst siftup_loop.simps) (simp add: Let_def)
    have cl: "?c < length heap" using True "1.prems" by auto
    have pc: "pos < ?c" by auto
    have len: "?c < length ?h1" using cl by simp
    have e: "endpos = length ?h1" using "1.prems" by simp
    from "1.IH"[OF refl True refl refl len e]
    have ih: "case siftup_loop ?h1 endpos ?c of (h', q) \<Rightarrow>
      length h' = length ?h1 \<and> q < length ?h1 \<and>
      mset (h'[q := x]) = mset (?h1[?c := x]) \<and>
      length ?h1 \<le> 2 * q + 1 \<and>
      (hole_inv ?h1 ?c \<longrightarrow> hole_inv h' q)" .
    have sw: "mset (?h1[?c := x]) = mset (heap[pos := x])"
    proof -
      let ?g = "heap[pos := x]"
      have ne: "pos \<noteq> ?c" using pc by simp
      have "?h1[?c := x] = ?g[pos := ?g ! ?c, ?c := ?g ! pos]"
        using ne cl "1.prems" by (simp add: list_update_swap)
      moreover have "mset (?g[pos := ?g ! ?c, ?c := ?g ! pos]) = mset ?g"
        using cl "1.prems" by (intro mset_swap) simp_all
      ultimately show ?thesis by simp
    qed
    have st: "hole_inv heap pos \<Longrightarrow> hole_inv ?h1 ?c"
      using hole_inv_step[of heap pos] True "1.prems" by simp
    obtain h' q where r: "siftup_loop ?h1 endpos ?c = (h', q)"
      by (cases "siftup_loop ?h1 endpos ?c")
    from ih r have i1: "length h' = length ?h1" and i2: "q < length ?h1"
      and i3: "mset (h'[q := x]) = mset (?h1[?c := x])"
      and i4: "length ?h1 \<le> 2 * q + 1"
      and i5: "hole_inv ?h1 ?c \<longrightarrow> hole_inv h' q"
      by simp_all
    have "length h' = length heap" using i1 by simp
    moreover have "q < length heap" using i2 by simp
    moreover have "mset (h'[q := x]) = mset (heap[pos := x])" using i3 sw by simp
    moreover have "length heap \<le> 2 * q + 1" using i4 by simp
    moreover have "hole_inv heap pos \<longrightarrow> hole_inv h' q" using i5 st by blast
    ultimately show ?thesis unfolding eq r by simp
  next
    case False
    then have eq: "siftup_loop heap endpos pos = (heap, pos)"
      by (subst siftup_loop.simps) (simp add: Let_def)
    show ?thesis unfolding eq using False "1.prems" by simp
  qed
qed

lemma siftup_props:
  assumes "pos < length h"
  shows "length (siftup h pos) = length h"
    and "mset (siftup h pos) = mset h"
    and "pos = 0 \<Longrightarrow> hole_inv h 0 \<Longrightarrow> heap_ok (siftup h pos)"
proof -
  obtain h' q where r: "siftup_loop h (length h) pos = (h', q)"
    by (cases "siftup_loop h (length h) pos")
  from siftup_loop_props[OF assms refl, of "h ! pos"] r
  have 1: "length h' = length h" and 2: "q < length h"
    and 3: "mset (h'[q := h ! pos]) = mset (h[pos := h ! pos])"
    and 4: "length h \<le> 2 * q + 1"
    and 5: "hole_inv h pos \<longrightarrow> hole_inv h' q"
    by simp_all
  let ?g = "h'[q := h ! pos]"
  have ql: "q < length ?g" using 1 2 by simp
  have su: "siftup h pos = siftdown ?g pos q" using r by (simp add: siftup_def Let_def)
  show "length (siftup h pos) = length h" unfolding su using siftdown_props(1)[OF ql] 1 by simp
  show "mset (siftup h pos) = mset h" unfolding su using siftdown_props(2)[OF ql] 3 by simp
  assume p0: "pos = 0" and hi: "hole_inv h 0"
  with 5 have hq: "hole_inv h' q" by simp
  have leaf: "\<And>i. 0 < i \<Longrightarrow> i < length ?g \<Longrightarrow> (i - 1) div 2 \<noteq> q"
  proof
    fix i assume i: "0 < i" "i < length ?g" "(i - 1) div 2 = q"
    then have "i = 2 * q + 1 \<or> i = 2 * q + 2" by arith
    with i(2) 4 1 show False by auto
  qed
  have a: "\<forall>i. 0 < i \<and> i < length ?g \<and> i \<noteq> q \<and> (i - 1) div 2 \<noteq> q \<longrightarrow>
           priority (?g ! ((i - 1) div 2)) \<le> priority (?g ! i)"
  proof (intro allI impI)
    fix i assume i: "0 < i \<and> i < length ?g \<and> i \<noteq> q \<and> (i - 1) div 2 \<noteq> q"
    then have e1: "?g ! i = h' ! i" and e2: "?g ! ((i - 1) div 2) = h' ! ((i - 1) div 2)"
      by simp_all
    from hq i have "priority (h' ! ((i - 1) div 2)) \<le> priority (h' ! i)"
      by (simp add: hole_inv_def)
    then show "priority (?g ! ((i - 1) div 2)) \<le> priority (?g ! i)" unfolding e1 e2 .
  qed
  have inv: "sift_inv ?g q (?g ! q)"
    unfolding sift_inv_def hole_inv_def using a leaf by blast
  have "heap_ok (siftdown ?g 0 q)" by (rule siftdown_props(3)[OF ql inv])
  then show "heap_ok (siftup h pos)" using su p0 by simp
qed

lemma heap_ok_butlast: "heap_ok h \<Longrightarrow> heap_ok (butlast h)"
proof -
  assume ok: "heap_ok h"
  show "heap_ok (butlast h)"
    unfolding heap_ok_def
  proof (intro allI impI)
    fix i assume i: "0 < i \<and> i < length (butlast h)"
    then have il: "i < length h - 1" by simp
    have "(i - 1) div 2 < i" using i by (intro parent_less) simp
    then have pl: "(i - 1) div 2 < length (butlast h)" using i by simp
    have e1: "butlast h ! i = h ! i" using i by (simp add: nth_butlast)
    have e2: "butlast h ! ((i - 1) div 2) = h ! ((i - 1) div 2)" using pl by (simp add: nth_butlast)
    have "0 < i \<and> i < length h" using i il by arith
    with ok have "priority (h ! ((i - 1) div 2)) \<le> priority (h ! i)"
      unfolding heap_ok_def by blast
    then show "priority (butlast h ! ((i - 1) div 2)) \<le> priority (butlast h ! i)"
      unfolding e1 e2 .
  qed
qed

lemma heap_ok_hole0: "heap_ok h \<Longrightarrow> hole_inv (h[0 := y]) 0"
  unfolding hole_inv_def heap_ok_def by simp

lemma heap_ok_min:
  assumes "heap_ok h"
  shows "i < length h \<Longrightarrow> priority (h ! 0) \<le> priority (h ! i)"
proof (induction i rule: less_induct)
  case (less i)
  show ?case
  proof (cases "i = 0")
    case True
    then show ?thesis by simp
  next
    case False
    then have i0: "0 < i" by simp
    then have pl: "(i - 1) div 2 < i" by (rule parent_less)
    with less.prems have "(i - 1) div 2 < length h" by simp
    from less.IH[OF pl this] have "priority (h ! 0) \<le> priority (h ! ((i - 1) div 2))" .
    moreover from assms i0 less.prems have "priority (h ! ((i - 1) div 2)) \<le> priority (h ! i)"
      by (simp add: heap_ok_def)
    ultimately show ?thesis by simp
  qed
qed

lemma heappop_props:
  assumes ok: "heap_ok h" and ne: "h \<noteq> []"
  shows "\<exists>x h'. heappop h = Inr (x, h') \<and> heap_ok h' \<and> mset h = add_mset x (mset h') \<and>
           (\<forall>y\<in>set h. priority x \<le> priority y)"
proof (cases "butlast h = []")
  case True
  with ne have h: "h = [last h]" by (metis append_butlast_last_id append_Nil)
  have r: "heappop h = Inr (last h, [])" using ne True by (simp add: heappop_def Let_def)
  have "heap_ok []" by (simp add: heap_ok_def)
  moreover have "mset h = add_mset (last h) (mset [])" using h by (metis mset.simps(2) mset_zero_iff_right)
  moreover have "\<forall>y\<in>set h. priority (last h) \<le> priority y" using h by (metis empty_iff empty_set order_refl set_ConsD)
  ultimately show ?thesis using r by blast
next
  case False
  let ?b = "butlast h"
  let ?g = "?b[0 := last h]"
  have bl: "0 < length ?b" using False by (cases "butlast h") simp_all
  have r: "heappop h = Inr (?b ! 0, siftup ?g 0)"
    unfolding heappop_def Let_def using ne False by (simp only: if_False if_True not_False_eq_True)
  have okb: "heap_ok ?b" using ok by (rule heap_ok_butlast)
  have gl: "0 < length ?g" using bl by simp
  have h1: "heap_ok (siftup ?g 0)"
    by (rule siftup_props(3)[OF gl refl heap_ok_hole0[OF okb]])
  have hd: "?b ! 0 = h ! 0" using bl by (simp add: nth_butlast)
  have "mset (siftup ?g 0) = mset ?g" by (rule siftup_props(2)[OF gl])
  also have "\<dots> = add_mset (last h) (mset ?b - {#?b ! 0#})" using bl by (simp add: mset_update)
  finally have m1: "mset (siftup ?g 0) = add_mset (last h) (mset ?b - {#?b ! 0#})" .
  have "h = ?b @ [last h]" using ne by simp
  then have "mset h = add_mset (last h) (mset ?b)" by (metis mset_append mset.simps union_mset_add_mset_right add.right_neutral)
  moreover have "?b ! 0 \<in># mset ?b" using bl by (metis nth_mem_mset)
  ultimately have m2: "mset h = add_mset (?b ! 0) (mset (siftup ?g 0))"
    unfolding m1 by simp
  have mn: "\<forall>y\<in>set h. priority (?b ! 0) \<le> priority y"
  proof
    fix y assume "y \<in> set h"
    then obtain i where "i < length h" "h ! i = y" by (auto simp: in_set_conv_nth)
    with heap_ok_min[OF ok, of i] show "priority (?b ! 0) \<le> priority y" unfolding hd by simp
  qed
  from r h1 m2 mn show ?thesis by blast
qed


lemma write_lines_loop_props:
  "heap_ok (write_queue s) \<Longrightarrow> lines \<noteq> [] \<or> write_queue s \<noteq> [] \<Longrightarrow>
   \<exists>pls q'. write_lines_loop lines s = Some (lines @ map pline pls, s\<lparr>write_queue := q'\<rparr>) \<and>
      heap_ok q' \<and> mset (write_queue s) = mset pls + mset q' \<and>
      sorted (map priority pls) \<and>
      (\<forall>x\<in>set pls. \<forall>y\<in>set q'. priority x \<le> priority y) \<and>
      (lines = [] \<longrightarrow> pls \<noteq> [])"
proof (induction lines s rule: write_lines_loop.induct)
  case (1 lines s)
  show ?case
  proof (cases "lines = [] \<or> (length lines < 5 \<and> length (write_queue s) > 0)")
    case False
    then have r: "write_lines_loop lines s = Some (lines, s)"
      by (subst write_lines_loop.simps) auto
    have "write_lines_loop lines s = Some (lines @ map pline [], s\<lparr>write_queue := write_queue s\<rparr>)"
      using r by simp
    moreover have "mset (write_queue s) = mset [] + mset (write_queue s)" by simp
    moreover have "lines \<noteq> []" using False by simp
    ultimately show ?thesis using "1.prems"(1)
      by (intro exI[of _ "[]"] exI[of _ "write_queue s"]) simp
  next
    case True
    then have ne: "write_queue s \<noteq> []" using "1.prems"(2) by auto
    from heappop_props[OF "1.prems"(1) ne] obtain x h' where
      p: "heappop (write_queue s) = Inr (x, h')" and ok': "heap_ok h'"
      and m: "mset (write_queue s) = add_mset x (mset h')"
      and mn: "\<forall>y\<in>set (write_queue s). priority x \<le> priority y" by blast
    let ?s1 = "s\<lparr>write_queue := h'\<rparr>"
    have r: "write_lines_loop lines s = write_lines_loop (lines @ [pline x]) ?s1"
      using True p by (subst write_lines_loop.simps) simp
    have ok1: "heap_ok (write_queue ?s1)" using ok' by simp
    have ne1: "lines @ [pline x] \<noteq> [] \<or> write_queue ?s1 \<noteq> []" by simp
    from "1.IH"[OF True p refl ok1 ne1] obtain pls q' where
      r1: "write_lines_loop (lines @ [pline x]) ?s1 =
            Some ((lines @ [pline x]) @ map pline pls, ?s1\<lparr>write_queue := q'\<rparr>)"
      and okq: "heap_ok q'" and m1: "mset (write_queue ?s1) = mset pls + mset q'"
      and so: "sorted (map priority pls)"
      and le: "\<forall>x\<in>set pls. \<forall>y\<in>set q'. priority x \<le> priority y" by blast
    have m1': "mset h' = mset pls + mset q'" using m1 by simp
    have sub: "set pls \<subseteq> set (write_queue s)" "set q' \<subseteq> set (write_queue s)"
    proof -
      have "set_mset (mset (write_queue s)) = insert x (set pls \<union> set q')"
        unfolding m m1' by simp
      then have "set (write_queue s) = insert x (set pls \<union> set q')" by simp
      then show "set pls \<subseteq> set (write_queue s)" "set q' \<subseteq> set (write_queue s)" by auto
    qed
    have a: "write_lines_loop lines s = Some (lines @ map pline (x # pls), s\<lparr>write_queue := q'\<rparr>)"
      unfolding r r1 by simp
    have b: "mset (write_queue s) = mset (x # pls) + mset q'" unfolding m m1' by simp
    have c: "sorted (map priority (x # pls))" using so mn sub(1) by auto
    have d: "\<forall>a\<in>set (x # pls). \<forall>y\<in>set q'. priority a \<le> priority y"
      using le mn sub(2) by auto
    show ?thesis
      apply (rule exI[of _ "x # pls"], rule exI[of _ q'])
      using a okq b c d by simp
  qed
qed

lemma write_lines_empty: "write_queue s = [] \<Longrightarrow> write_lines s = None"
  by (simp add: write_lines_def write_lines_loop.simps[of "[]" s] heappop_def)

lemma drain_props:
  "heap_ok (write_queue s) \<Longrightarrow> length (write_queue s) \<le> n \<Longrightarrow>
   \<exists>pls. fst (drain n s) = map pline pls \<and> sorted (map priority pls) \<and>
      mset pls = mset (write_queue s) \<and>
      write_queue (snd (drain n s)) = [] \<and>
      writer (snd (drain n s)) = writer s @ map pline pls"
proof (induction n arbitrary: s)
  case 0
  then show ?case by (intro exI[of _ "[]"]) simp
next
  case (Suc n)
  show ?case
  proof (cases "write_queue s = []")
    case True
    then show ?thesis by (intro exI[of _ "[]"]) (simp add: write_lines_empty)
  next
    case False
    from write_lines_loop_props[OF Suc.prems(1), of "[]"] False obtain pls q' where
      r: "write_lines_loop [] s = Some (map pline pls, s\<lparr>write_queue := q'\<rparr>)"
      and okq: "heap_ok q'" and m: "mset (write_queue s) = mset pls + mset q'"
      and so: "sorted (map priority pls)"
      and le: "\<forall>x\<in>set pls. \<forall>y\<in>set q'. priority x \<le> priority y"
      and ne: "pls \<noteq> []" by auto
    let ?s1 = "s\<lparr>write_queue := q', writer := writer s @ map pline pls\<rparr>"
    have w: "write_lines s = Some (map pline pls, ?s1)" using r by (simp add: write_lines_def)
    have "length (write_queue s) = length pls + length q'"
      using m by (metis size_mset size_union)
    then have len: "length (write_queue ?s1) \<le> n" using Suc.prems(2) ne
      by (cases pls) simp_all
    have ok1: "heap_ok (write_queue ?s1)" using okq by simp
    from Suc.IH[OF ok1 len] obtain pls2 where
      d: "fst (drain n ?s1) = map pline pls2" and so2: "sorted (map priority pls2)"
      and m2: "mset pls2 = mset (write_queue ?s1)"
      and e: "write_queue (snd (drain n ?s1)) = []"
      and wr: "writer (snd (drain n ?s1)) = writer ?s1 @ map pline pls2" by blast
    have m2': "mset pls2 = mset q'" using m2 by simp
    then have "set pls2 = set q'" by (metis set_mset_mset)
    with le have le2: "\<forall>x\<in>set pls. \<forall>y\<in>set pls2. priority x \<le> priority y" by simp
    have dr: "drain (Suc n) s = (map pline pls @ fst (drain n ?s1), snd (drain n ?s1))"
      using w by (simp add: split_beta Let_def)
    have 1: "fst (drain (Suc n) s) = map pline (pls @ pls2)" unfolding dr d by simp
    have 2: "sorted (map priority (pls @ pls2))" using so so2 le2 by (auto simp: sorted_append)
    have 3: "mset (pls @ pls2) = mset (write_queue s)" unfolding m using m2' by simp
    have 4: "write_queue (snd (drain (Suc n) s)) = []" unfolding dr using e by simp
    have 5: "writer (snd (drain (Suc n) s)) = writer s @ map pline (pls @ pls2)"
      unfolding dr using wr by simp
    from 1 2 3 4 5 show ?thesis by blast
  qed
qed

lemma send_heap_ok: "heap_ok (write_queue s) \<Longrightarrow> heap_ok (write_queue (send l prio s))"
  by (simp add: send_def heappush_heap_ok)

lemma send_all_props:
  "heap_ok (write_queue s) \<Longrightarrow>
   heap_ok (write_queue (send_all xs s)) \<and>
   mset (write_queue (send_all xs s)) =
     mset (write_queue s) + mset (map (\<lambda>(l, prio). \<lparr>priority = prio, pline = l\<rparr>) xs) \<and>
   writer (send_all xs s) = writer s"
proof (induction xs arbitrary: s)
  case Nil
  then show ?case by (simp add: send_all_def)
next
  case (Cons a xs)
  obtain l prio where a: "a = (l, prio)" by (cases a)
  have e: "send_all (a # xs) s = send_all xs (send l prio s)" by (simp add: send_all_def a)
  have ok1: "heap_ok (write_queue (send l prio s))" using Cons.prems by (rule send_heap_ok)
  from Cons.IH[OF ok1] show ?case unfolding e
    by (simp add: a send_def heappush_mset)
qed

text \<open>
  Claim C6, amended. For every sequence of calls of \<open>send\<close> on an empty write queue, the
  write loop then writes exactly the lines that were sent, in an order that is non-decreasing
  in their priorities. (The order among lines of equal priority is that of the binary heap.)
\<close>

theorem write_queue_drains_by_priority:
  assumes "write_queue s = []"
  shows "\<exists>pls. fst (drain (length xs) (send_all xs s)) = map pline pls \<and>
      sorted (map priority pls) \<and>
      mset pls = mset (map (\<lambda>(l, prio). \<lparr>priority = prio, pline = l\<rparr>) xs) \<and>
      write_queue (snd (drain (length xs) (send_all xs s))) = [] \<and>
      writer (snd (drain (length xs) (send_all xs s))) = writer s @ map pline pls"
proof -
  have ok: "heap_ok (write_queue s)" using assms by (simp add: heap_ok_def)
  from send_all_props[OF ok, of xs] have
    ok1: "heap_ok (write_queue (send_all xs s))" and
    m: "mset (write_queue (send_all xs s)) =
          mset (map (\<lambda>(l, prio). \<lparr>priority = prio, pline = l\<rparr>) xs)" and
    w: "writer (send_all xs s) = writer s" using assms by simp_all
  have "length (write_queue (send_all xs s)) = length xs"
    using m by (metis size_mset length_map)
  then have len: "length (write_queue (send_all xs s)) \<le> length xs" by simp
  from drain_props[OF ok1 len] show ?thesis unfolding m w .
qed

lemmas heap_eval = siftdown_loop.simps siftup_loop.simps write_lines_loop.simps
  heappush_def heappop_def siftdown_def siftup_def send_all_def send_def write_lines_def
  lt_def Let_def

text \<open>
  Claim C6, as stated, fails: four lines sent with the same priority are not written in the
  order they were sent. The third line is written before the second.
\<close>

theorem equal_priority_not_fifo_counterexample:
  "map snd four_lines = [10, 10, 10, 10] \<and>
   fst (drain (length four_lines) (send_all four_lines demo_server)) =
     [build ''PRIVMSG'' [''#chan'', ''one''], build ''PRIVMSG'' [''#chan'', ''three''],
      build ''PRIVMSG'' [''#chan'', ''two''], build ''PRIVMSG'' [''#chan'', ''four'']] \<and>
   fst (drain (length four_lines) (send_all four_lines demo_server)) \<noteq> map fst four_lines"
  by (simp add: four_lines_def demo_server_def heap_eval build_def)

theorem write_queue_drains_by_priority_witness:
  "write_queue demo_server = [] \<and>
   fst (drain (length three_lines) (send_all three_lines demo_server)) =
     [build ''PONG'' [''token''], build ''PRIVMSG'' [''#chan'', ''default''],
      build ''PRIVMSG'' [''#chan'', ''low'']] \<and>
   (\<exists>pls. fst (drain (length three_lines) (send_all three_lines demo_server)) = map pline pls \<and>
      sorted (map priority pls) \<and>
      mset pls = mset (map (\<lambda>(l, prio). \<lparr>priority = prio, pline = l\<rparr>) three_lines))"
proof -
  have e: "write_queue demo_server = []" by (simp add: demo_server_def)
  have v: "fst (drain (length three_lines) (send_all three_lines demo_server)) =
     [build ''PONG'' [''token''], build ''PRIVMSG'' [''#chan'', ''default''],
      build ''PRIVMSG'' [''#chan'', ''low'']]"
    by (simp add: three_lines_def demo_server_def heap_eval build_def)
  from write_queue_drains_by_priority[OF e, of three_lines]
  have "\<exists>pls. fst (drain (length three_lines) (send_all three_lines demo_server)) = map pline pls \<and>
      sorted (map priority pls) \<and>
      mset pls = mset (map (\<lambda>(l, prio). \<lparr>priority = prio, pline = l\<rparr>) three_lines)"
    by blast
  with e v show ?thesis by blast
qed

section \<open>SASL\<close>

lemma common_loop_none:
  "\<forall>m\<in>set ours. m \<notin> set srv \<Longrightarrow> common_loop ours srv = None"
  by (induction ours) auto

lemma common_loop_first:
  "i < length ours \<Longrightarrow> ours ! i \<in> set srv \<Longrightarrow> \<forall>j<i. ours ! j \<notin> set srv \<Longrightarrow>
   common_loop ours srv = Some (ours ! i)"
proof (induction ours arbitrary: i)
  case Nil
  then show ?case by simp
next
  case (Cons m ms)
  show ?case
  proof (cases i)
    case 0
    with Cons.prems show ?thesis by simp
  next
    case (Suc i')
    from Cons.prems(3) Suc have "m \<notin> set srv" by auto
    moreover have "\<forall>j<i'. ms ! j \<notin> set srv" using Cons.prems(3) Suc by auto
    ultimately show ?thesis using Cons.IH[of i'] Cons.prems Suc by simp
  qed
qed

lemma sasl_userpass_value:
  "available_caps s ''sasl'' = Some (Some v) \<Longrightarrow>
   sasl_userpass E u p s =
     (case common (str_split CHR '','' v) of
        Inl e \<Rightarrow> Raise e s
      | Inr m \<Rightarrow> Await (length (futures s))
          (snd (wait_for (Response ''AUTHENTICATE'' [ParamAny] [''904'', ''907'', ''908''])
                 (send (build ''AUTHENTICATE'' [m]) (DEFAULT E) s)))
          (\<lambda>line s3.
                if command line = ''907'' then Return ALREADY s3
                else if command line = ''908'' then
                  (case index (params line) 1 of
                     Inl e \<Rightarrow> Raise e s3
                   | Inr v \<Rightarrow>
                       (case common (str_split CHR '','' v) of
                          Inl e \<Rightarrow> Raise e s3
                        | Inr match' \<Rightarrow>
                            (let s4 = send (build ''AUTHENTICATE'' [match']) (DEFAULT E) s3;
                                 (fut', s5) =
                                   wait_for (Response ''AUTHENTICATE'' [ParamAny] []) s4
                             in Await fut' s5
                                  (sasl_userpass_respond E u p match'))))
                else sasl_userpass_respond E u p m line s3))"
  by (simp add: sasl_userpass_def wait_for_def send_def Let_def split: sum.splits)

text \<open>
  Claim C3. When \<open>available_caps["sasl"]\<close> has a value, \<open>sasl_userpass\<close> splits it at
  the commas and selects the first mechanism of the priority order SCRAM-SHA-512,
  SCRAM-SHA-256, SCRAM-SHA-1, PLAIN that the server lists: it sends \<open>AUTHENTICATE\<close> with
  that mechanism and waits. When the server lists none of them, it raises
  \<open>SASLUnkownMechanismError\<close> and sends nothing.
\<close>

theorem sasl_userpass_selects_common_mechanism:
  assumes "available_caps s ''sasl'' = Some (Some v)"
  shows "SASL_USERPASS_MECHANISMS = [''SCRAM-SHA-512'', ''SCRAM-SHA-256'', ''SCRAM-SHA-1'', ''PLAIN''] \<and>
    ((\<forall>m\<in>set SASL_USERPASS_MECHANISMS. m \<notin> set (str_split CHR '','' v)) \<longrightarrow>
       sasl_userpass E u p s = Raise (SASLUnkownMechanismError (str_split CHR '','' v)) s) \<and>
    (\<forall>i<length SASL_USERPASS_MECHANISMS.
       SASL_USERPASS_MECHANISMS ! i \<in> set (str_split CHR '','' v) \<and>
       (\<forall>j<i. SASL_USERPASS_MECHANISMS ! j \<notin> set (str_split CHR '','' v)) \<longrightarrow>
       (\<exists>k. sasl_userpass E u p s =
          Await (length (futures s))
            (snd (wait_for (Response ''AUTHENTICATE'' [ParamAny] [''904'', ''907'', ''908''])
                   (send (build ''AUTHENTICATE'' [SASL_USERPASS_MECHANISMS ! i]) (DEFAULT E) s)))
            k))"
proof (intro conjI impI allI)
  show "SASL_USERPASS_MECHANISMS = [''SCRAM-SHA-512'', ''SCRAM-SHA-256'', ''SCRAM-SHA-1'', ''PLAIN'']"
    by (simp add: SASL_USERPASS_MECHANISMS_def)
next
  assume "\<forall>m\<in>set SASL_USERPASS_MECHANISMS. m \<notin> set (str_split CHR '','' v)"
  then have "common_loop SASL_USERPASS_MECHANISMS (str_split CHR '','' v) = None"
    by (rule common_loop_none)
  then have "common (str_split CHR '','' v) = Inl (SASLUnkownMechanismError (str_split CHR '','' v))"
    by (simp add: common_def)
  then show "sasl_userpass E u p s = Raise (SASLUnkownMechanismError (str_split CHR '','' v)) s"
    using sasl_userpass_value[OF assms, of E u p] by simp
next
  fix i
  assume i: "i < length SASL_USERPASS_MECHANISMS"
    and "SASL_USERPASS_MECHANISMS ! i \<in> set (str_split CHR '','' v) \<and>
       (\<forall>j<i. SASL_USERPASS_MECHANISMS ! j \<notin> set (str_split CHR '','' v))"
  then have "common_loop SASL_USERPASS_MECHANISMS (str_split CHR '','' v)
      = Some (SASL_USERPASS_MECHANISMS ! i)"
    by (intro common_loop_first) simp_all
  then have "common (str_split CHR '','' v) = Inr (SASL_USERPASS_MECHANISMS ! i)"
    by (simp add: common_def)
  then show "\<exists>k. sasl_userpass E u p s =
          Await (length (futures s))
            (snd (wait_for (Response ''AUTHENTICATE'' [ParamAny] [''904'', ''907'', ''908''])
                   (send (build ''AUTHENTICATE'' [SASL_USERPASS_MECHANISMS ! i]) (DEFAULT E) s)))
            k"
    using sasl_userpass_value[OF assms, of E u p] by simp
qed

theorem sasl_userpass_selects_common_mechanism_witness:
  "available_caps v32_server ''sasl'' = Some (Some ''PLAIN,SCRAM-SHA-256'') \<and>
   (\<exists>k. sasl_userpass demo_env ''alice'' ''secret'' v32_server =
      Await 0
        (snd (wait_for (Response ''AUTHENTICATE'' [ParamAny] [''904'', ''907'', ''908''])
               (send (build ''AUTHENTICATE'' [''SCRAM-SHA-256'']) 10 v32_server)))
        k) \<and>
   available_caps oauth_server ''sasl'' = Some (Some ''OAUTHBEARER'') \<and>
   sasl_userpass demo_env ''alice'' ''secret'' oauth_server =
     Raise (SASLUnkownMechanismError [''OAUTHBEARER'']) oauth_server"
proof -
  have a: "available_caps v32_server ''sasl'' = Some (Some ''PLAIN,SCRAM-SHA-256'')"
    by (simp add: v32_server_def)
  have b: "available_caps oauth_server ''sasl'' = Some (Some ''OAUTHBEARER'')"
    by (simp add: oauth_server_def)
  have sa: "str_split CHR '','' ''PLAIN,SCRAM-SHA-256'' = [''PLAIN'', ''SCRAM-SHA-256'']"
    by simp
  have sb: "str_split CHR '','' ''OAUTHBEARER'' = [''OAUTHBEARER'']"
    by simp
  have f: "futures v32_server = []" by (simp add: v32_server_def demo_server_def)
  have d: "DEFAULT demo_env = 10" by (simp add: demo_env_def)
  from sasl_userpass_selects_common_mechanism[OF a, of demo_env "''alice''" "''secret''"]
  have 1: "\<exists>k. sasl_userpass demo_env ''alice'' ''secret'' v32_server =
      Await 0
        (snd (wait_for (Response ''AUTHENTICATE'' [ParamAny] [''904'', ''907'', ''908''])
               (send (build ''AUTHENTICATE'' [''SCRAM-SHA-256'']) 10 v32_server)))
        k"
    unfolding sa f d by (auto simp: SASL_USERPASS_MECHANISMS_def dest!: spec[of _ 1])
  from sasl_userpass_selects_common_mechanism[OF b, of demo_env "''alice''" "''secret''"]
  have 2: "sasl_userpass demo_env ''alice'' ''secret'' oauth_server =
     Raise (SASLUnkownMechanismError [''OAUTHBEARER'']) oauth_server"
    unfolding sb by (simp add: SASL_USERPASS_MECHANISMS_def)
  from a b 1 2 show ?thesis by simp
qed

lemma heappush_Nil: "heappush [] x = [x]"
  by (simp add: heappush_def siftdown_def siftdown_loop.simps)

lemma sasl_userpass_pre32:
  "available_caps s ''sasl'' = Some None \<Longrightarrow>
   sasl_userpass E u p s =
     Await (length (futures s))
          (snd (wait_for (Response ''AUTHENTICATE'' [ParamAny] [''904'', ''907'', ''908''])
                 (send (build ''AUTHENTICATE'' [''SCRAM-SHA-512'']) (DEFAULT E) s)))
          (\<lambda>line s3.
                if command line = ''907'' then Return ALREADY s3
                else if command line = ''908'' then
                  (case index (params line) 1 of
                     Inl e \<Rightarrow> Raise e s3
                   | Inr v \<Rightarrow>
                       (case common (str_split CHR '','' v) of
                          Inl e \<Rightarrow> Raise e s3
                        | Inr match' \<Rightarrow>
                            (let s4 = send (build ''AUTHENTICATE'' [match']) (DEFAULT E) s3;
                                 (fut', s5) =
                                   wait_for (Response ''AUTHENTICATE'' [ParamAny] []) s4
                             in Await fut' s5
                                  (sasl_userpass_respond E u p match'))))
                else sasl_userpass_respond E u p ''SCRAM-SHA-512'' line s3)"
  by (simp add: sasl_userpass_def wait_for_def send_def Let_def index_def
      SASL_USERPASS_MECHANISMS_def)

text \<open>
  Claim C4, as stated, fails: with the value of \<open>sasl\<close> absent, the mechanism sent in the
  first \<open>AUTHENTICATE\<close> is \<open>SASL_USERPASS_MECHANISMS[0]\<close>, which is SCRAM-SHA-512 and not
  PLAIN.
\<close>

theorem sasl_userpass_absent_value_counterexample:
  "available_caps pre32_server ''sasl'' = Some None \<and>
   map pline (write_queue (state_of (sasl_userpass demo_env ''alice'' ''secret'' pre32_server)))
     = [build ''AUTHENTICATE'' [''SCRAM-SHA-512'']] \<and>
   map pline (write_queue (state_of (sasl_userpass demo_env ''alice'' ''secret'' pre32_server)))
     \<noteq> [build ''AUTHENTICATE'' [''PLAIN'']]"
proof -
  have a: "available_caps pre32_server ''sasl'' = Some None" by (simp add: pre32_server_def)
  have q: "write_queue pre32_server = []" by (simp add: pre32_server_def demo_server_def)
  have "map pline (write_queue (state_of (sasl_userpass demo_env ''alice'' ''secret'' pre32_server)))
     = [build ''AUTHENTICATE'' [''SCRAM-SHA-512'']]"
    by (simp add: sasl_userpass_pre32[OF a] wait_for_def send_def q heappush_Nil Let_def)
  with a show ?thesis by (simp add: build_def)
qed

text \<open>
  Claim C4, amended. When the value of \<open>sasl\<close> is absent, \<open>sasl_userpass\<close> optimistically
  picks the first mechanism of the priority list, SCRAM-SHA-512, for its first
  \<open>AUTHENTICATE\<close>, and defers the negotiation to a possible 908 reply: on a 908 with a second
  parameter it selects again against the list the server sent, and either raises or sends
  \<open>AUTHENTICATE\<close> with the mechanism selected and waits for an \<open>AUTHENTICATE\<close> reply.
\<close>

theorem sasl_userpass_absent_value_picks_first:
  assumes "available_caps s ''sasl'' = Some None"
  shows "SASL_USERPASS_MECHANISMS ! 0 = ''SCRAM-SHA-512'' \<and>
    (\<exists>k. sasl_userpass E u p s =
        Await (length (futures s))
          (snd (wait_for (Response ''AUTHENTICATE'' [ParamAny] [''904'', ''907'', ''908''])
                 (send (build ''AUTHENTICATE'' [SASL_USERPASS_MECHANISMS ! 0]) (DEFAULT E) s)))
          k \<and>
      (\<forall>line v s3. command line = ''908'' \<and> index (params line) 1 = Inr v \<longrightarrow>
         k line s3 =
           (case common (str_split CHR '','' v) of
              Inl e \<Rightarrow> Raise e s3
            | Inr m \<Rightarrow>
                Await (length (futures s3))
                  (snd (wait_for (Response ''AUTHENTICATE'' [ParamAny] [])
                         (send (build ''AUTHENTICATE'' [m]) (DEFAULT E) s3)))
                  (sasl_userpass_respond E u p m))))"
proof -
  have m0: "SASL_USERPASS_MECHANISMS ! 0 = ''SCRAM-SHA-512''"
    by (simp add: SASL_USERPASS_MECHANISMS_def)
  show ?thesis
    unfolding m0 sasl_userpass_pre32[OF assms]
    by (auto simp: wait_for_def send_def Let_def split: sum.splits)
qed

theorem sasl_userpass_absent_value_picks_first_witness:
  "available_caps pre32_server ''sasl'' = Some None \<and>
   (\<exists>k. sasl_userpass demo_env ''alice'' ''secret'' pre32_server =
        Await 0
          (snd (wait_for (Response ''AUTHENTICATE'' [ParamAny] [''904'', ''907'', ''908''])
                 (send (build ''AUTHENTICATE'' [''SCRAM-SHA-512'']) 10 pre32_server)))
          k \<and>
      k (build ''908'' [''alice'', ''PLAIN,EXTERNAL'', ''are available mechanisms'']) pre32_server =
        Await 0
          (snd (wait_for (Response ''AUTHENTICATE'' [ParamAny] [])
                 (send (build ''AUTHENTICATE'' [''PLAIN'']) 10 pre32_server)))
          (sasl_userpass_respond demo_env ''alice'' ''secret'' ''PLAIN''))"
proof -
  have a: "available_caps pre32_server ''sasl'' = Some None" by (simp add: pre32_server_def)
  have f: "length (futures pre32_server) = 0" by (simp add: pre32_server_def demo_server_def)
  have d: "DEFAULT demo_env = 10" by (simp add: demo_env_def)
  have c: "common (str_split CHR '','' ''PLAIN,EXTERNAL'') = Inr ''PLAIN''"
    by (simp add: common_def SASL_USERPASS_MECHANISMS_def)
  have i: "index (params (build ''908'' [''alice'', ''PLAIN,EXTERNAL'', ''are available mechanisms''])) 1
      = Inr ''PLAIN,EXTERNAL''"
    by (simp add: index_def build_def)
  have cm: "command (build ''908'' [''alice'', ''PLAIN,EXTERNAL'', ''are available mechanisms'']) = ''908''"
    by (simp add: build_def)
  from sasl_userpass_absent_value_picks_first[OF a, of demo_env "''alice''" "''secret''"]
  obtain k where k: "sasl_userpass demo_env ''alice'' ''secret'' pre32_server =
        Await (length (futures pre32_server))
          (snd (wait_for (Response ''AUTHENTICATE'' [ParamAny] [''904'', ''907'', ''908''])
                 (send (build ''AUTHENTICATE'' [SASL_USERPASS_MECHANISMS ! 0]) (DEFAULT demo_env) pre32_server)))
          k"
    and m0: "SASL_USERPASS_MECHANISMS ! 0 = ''SCRAM-SHA-512''"
    and k908: "\<forall>line v s3. command line = ''908'' \<and> index (params line) 1 = Inr v \<longrightarrow>
         k line s3 =
           (case common (str_split CHR '','' v) of
              Inl e \<Rightarrow> Raise e s3
            | Inr m \<Rightarrow>
                Await (length (futures s3))
                  (snd (wait_for (Response ''AUTHENTICATE'' [ParamAny] [])
                         (send (build ''AUTHENTICATE'' [m]) (DEFAULT demo_env) s3)))
                  (sasl_userpass_respond demo_env ''alice'' ''secret'' m))"
    by blast
  from k908 cm i have "k (build ''908'' [''alice'', ''PLAIN,EXTERNAL'', ''are available mechanisms'']) pre32_server =
           (case common (str_split CHR '','' ''PLAIN,EXTERNAL'') of
              Inl e \<Rightarrow> Raise e pre32_server
            | Inr m \<Rightarrow>
                Await (length (futures pre32_server))
                  (snd (wait_for (Response ''AUTHENTICATE'' [ParamAny] [])
                         (send (build ''AUTHENTICATE'' [m]) (DEFAULT demo_env) pre32_server)))
                  (sasl_userpass_respond demo_env ''alice'' ''secret'' m))"
    by blast
  then have k2: "k (build ''908'' [''alice'', ''PLAIN,EXTERNAL'', ''are available mechanisms'']) pre32_server =
        Await 0
          (snd (wait_for (Response ''AUTHENTICATE'' [ParamAny] [])
                 (send (build ''AUTHENTICATE'' [''PLAIN'']) 10 pre32_server)))
          (sasl_userpass_respond demo_env ''alice'' ''secret'' ''PLAIN'')"
    unfolding c f d by simp
  show ?thesis
    apply (rule conjI[OF a])
    apply (rule exI[of _ k])
    using k k2 unfolding m0 f d by simp
qed

subsection \<open>Base64\<close>













lemma sasl_external_value:
  "sasl_external E s =
     Await (length (futures s))
       (snd (wait_for (Response ''AUTHENTICATE'' [ParamAny] [''904'', ''907'', ''908''])
              (send (build ''AUTHENTICATE'' [''EXTERNAL'']) (DEFAULT E) s)))
       (\<lambda>line s3.
           if command line = ''907'' then Return ALREADY s3
           else if command line = ''908'' then
             (case index (params line) 1 of
                Inl e \<Rightarrow> Raise e s3
              | Inr v \<Rightarrow> Raise (SASLUnkownMechanismError (str_split CHR '','' v)) s3)
           else if command line = ''AUTHENTICATE'' then
             (case index (params line) 0 of
                Inl e \<Rightarrow> Raise e s3
              | Inr p0 \<Rightarrow>
                  if p0 = ''+'' then
                    (let s4 = send (build ''AUTHENTICATE'' [''+'']) (DEFAULT E) s3;
                         (fut', s5) = wait_for (Numerics [''903'', ''904'']) s4
                     in Await fut' s5 (\<lambda>line' s6.
                          if command line' = ''903'' then Return SUCCESS s6
                          else Return FAILURE s6))
                  else Return FAILURE s3)
           else Return FAILURE s3)"
  by (simp add: sasl_external_def wait_for_def send_def Let_def)

lemma sasl_userpass_attempt:
  assumes "sasl_userpass E u p s = Await fut s1 k"
  shows "\<exists>m. fut = length (futures s) \<and>
      s1 = snd (wait_for (Response ''AUTHENTICATE'' [ParamAny] [''904'', ''907'', ''908''])
                 (send (build ''AUTHENTICATE'' [m]) (DEFAULT E) s)) \<and>
      k = (\<lambda>line s3.
                if command line = ''907'' then Return ALREADY s3
                else if command line = ''908'' then
                  (case index (params line) 1 of
                     Inl e \<Rightarrow> Raise e s3
                   | Inr v \<Rightarrow>
                       (case common (str_split CHR '','' v) of
                          Inl e \<Rightarrow> Raise e s3
                        | Inr match' \<Rightarrow>
                            (let s4 = send (build ''AUTHENTICATE'' [match']) (DEFAULT E) s3;
                                 (fut', s5) =
                                   wait_for (Response ''AUTHENTICATE'' [ParamAny] []) s4
                             in Await fut' s5
                                  (sasl_userpass_respond E u p match'))))
                else sasl_userpass_respond E u p m line s3)"
proof (cases "available_caps s ''sasl''")
  case None
  with assms show ?thesis by (simp add: sasl_userpass_def)
next
  case (Some x)
  show ?thesis
  proof (cases x)
    case None
    with Some have a: "available_caps s ''sasl'' = Some None" by simp
    from assms show ?thesis unfolding sasl_userpass_pre32[OF a] by auto
  next
    case (Some v)
    with \<open>available_caps s ''sasl'' = Some x\<close>
    have a: "available_caps s ''sasl'' = Some (Some v)" by simp
    from assms show ?thesis unfolding sasl_userpass_value[OF a]
      by (cases "common (str_split CHR '','' v)") auto
  qed
qed

text \<open>
  Claim C8. \<open>sasl_external\<close> sends \<open>AUTHENTICATE EXTERNAL\<close> and waits; whenever
  \<open>sasl_userpass\<close> gets as far as waiting, it has sent \<open>AUTHENTICATE\<close> with some
  mechanism. In both, a reply 907 to that attempt makes the coroutine return \<open>ALREADY\<close>,
  whatever the mechanism.
\<close>

theorem sasl_907_already_done:
  "(\<exists>k. sasl_external E s =
       Await (length (futures s))
         (snd (wait_for (Response ''AUTHENTICATE'' [ParamAny] [''904'', ''907'', ''908''])
                (send (build ''AUTHENTICATE'' [''EXTERNAL'']) (DEFAULT E) s)))
         k \<and>
       (\<forall>line s'. command line = ''907'' \<longrightarrow> k line s' = Return ALREADY s')) \<and>
   (\<forall>fut s1 k. sasl_userpass E u p s = Await fut s1 k \<longrightarrow>
       (\<exists>m. s1 = snd (wait_for (Response ''AUTHENTICATE'' [ParamAny] [''904'', ''907'', ''908''])
                       (send (build ''AUTHENTICATE'' [m]) (DEFAULT E) s))) \<and>
       (\<forall>line s'. command line = ''907'' \<longrightarrow> k line s' = Return ALREADY s'))"
proof (intro conjI allI impI)
  show "\<exists>k. sasl_external E s =
       Await (length (futures s))
         (snd (wait_for (Response ''AUTHENTICATE'' [ParamAny] [''904'', ''907'', ''908''])
                (send (build ''AUTHENTICATE'' [''EXTERNAL'']) (DEFAULT E) s)))
         k \<and>
       (\<forall>line s'. command line = ''907'' \<longrightarrow> k line s' = Return ALREADY s')"
    unfolding sasl_external_value by auto
next
  fix fut s1 k
  assume "sasl_userpass E u p s = Await fut s1 k"
  from sasl_userpass_attempt[OF this]
  show "\<exists>m. s1 = snd (wait_for (Response ''AUTHENTICATE'' [ParamAny] [''904'', ''907'', ''908''])
                       (send (build ''AUTHENTICATE'' [m]) (DEFAULT E) s))"
    by blast
next
  fix fut s1 k and line :: line and s'
  assume "sasl_userpass E u p s = Await fut s1 k" and "command line = ''907''"
  with sasl_userpass_attempt[of E u p s fut s1 k]
  show "k line s' = Return ALREADY s'" by auto
qed

theorem sasl_907_already_done_witness:
  "(\<exists>k. sasl_external demo_env demo_server =
       Await 0
         (snd (wait_for (Response ''AUTHENTICATE'' [ParamAny] [''904'', ''907'', ''908''])
                (send (build ''AUTHENTICATE'' [''EXTERNAL'']) 10 demo_server)))
         k \<and>
       k (build ''907'' [''alice'', ''You have already authenticated using SASL'']) demo_server
         = Return ALREADY demo_server) \<and>
   (\<exists>fut s1 k. sasl_userpass demo_env ''alice'' ''secret'' pre32_server = Await fut s1 k \<and>
      k (build ''907'' [''alice'', ''You have already authenticated using SASL'']) s1
        = Return ALREADY s1) \<and>
   (\<exists>fut s1 k. sasl_userpass demo_env ''alice'' ''secret'' plain_server = Await fut s1 k \<and>
      k (build ''907'' [''alice'', ''You have already authenticated using SASL'']) s1
        = Return ALREADY s1)"
proof -
  have c: "command (build ''907'' [''alice'', ''You have already authenticated using SASL'']) = ''907''"
    by (simp add: build_def)
  have a: "available_caps pre32_server ''sasl'' = Some None" by (simp add: pre32_server_def)
  have b: "available_caps plain_server ''sasl'' = Some (Some ''PLAIN'')"
    by (simp add: plain_server_def)
  have pl: "common (str_split CHR '','' ''PLAIN'') = Inr ''PLAIN''"
    by (simp add: common_def SASL_USERPASS_MECHANISMS_def)
  obtain fut s1 k where 1: "sasl_userpass demo_env ''alice'' ''secret'' pre32_server = Await fut s1 k"
    unfolding sasl_userpass_pre32[OF a] by simp
  obtain fut' s1' k' where 2: "sasl_userpass demo_env ''alice'' ''secret'' plain_server = Await fut' s1' k'"
    unfolding sasl_userpass_value[OF b] pl by simp
  note t1 = sasl_907_already_done[of demo_env pre32_server "''alice''" "''secret''",
      THEN conjunct2, rule_format, OF 1, THEN conjunct2, rule_format, OF c]
  note t2 = sasl_907_already_done[of demo_env plain_server "''alice''" "''secret''",
      THEN conjunct2, rule_format, OF 2, THEN conjunct2, rule_format, OF c]
  have f: "length (futures demo_server) = 0" by (simp add: demo_server_def)
  have d: "DEFAULT demo_env = 10" by (simp add: demo_env_def)
  from sasl_907_already_done[of demo_env demo_server "''alice''" "''secret''", THEN conjunct1]
  obtain k0 where
    3: "sasl_external demo_env demo_server =
       Await 0
         (snd (wait_for (Response ''AUTHENTICATE'' [ParamAny] [''904'', ''907'', ''908''])
                (send (build ''AUTHENTICATE'' [''EXTERNAL'']) 10 demo_server)))
         k0" and
    4: "\<forall>line s'. command line = ''907'' \<longrightarrow> k0 line s' = Return ALREADY s'"
    unfolding f d by (elim exE conjE)
  note t0 = 4[rule_format, OF c]
  show ?thesis
    apply (rule conjI)
     apply (rule exI[of _ k0])
     apply (rule conjI[OF 3 t0])
    apply (rule conjI)
     apply (rule exI[of _ fut], rule exI[of _ s1], rule exI[of _ k])
     apply (rule conjI[OF 1 t1])
    apply (rule exI[of _ fut'], rule exI[of _ s1'], rule exI[of _ k'])
    apply (rule conjI[OF 2 t2])
    done
qed

section \<open>Capability negotiation\<close>

lemma filter_bool_eq:
  "filter_bool xs = map the (filter (\<lambda>x. x \<noteq> None \<and> x \<noteq> Some []) xs)"
  by (induction xs rule: filter_bool.induct) simp_all

lemma cap_ls_done_value:
  "cap_ls_done E queued s =
     (if filter_bool (map (\<lambda>c. available E c (dom (available_caps s)))
           (CAPS E @ queued @ (if sasl (conn_params s) = None then [] else [CAP_SASL E]))) \<noteq> []
      then send (build ''CAP'' [''REQ'', join '' ''
                  (filter_bool (map (\<lambda>c. available E c (dom (available_caps s)))
                    (CAPS E @ queued @
                      (if sasl (conn_params s) = None then [] else [CAP_SASL E]))))]) (DEFAULT E)
             (s\<lparr>cap_queue := {}, requested_caps :=
                  filter_bool (map (\<lambda>c. available E c (dom (available_caps s)))
                    (CAPS E @ queued @
                      (if sasl (conn_params s) = None then [] else [CAP_SASL E])))\<rparr>)
      else s\<lparr>cap_queue := {}\<rparr>)"
  by (cases "sasl (conn_params s)") (simp_all add: cap_ls_done_def Let_def)

text \<open>
  Claim C7. On CAP LS completion the request list is \<open>CAPS\<close>, the queued capabilities (in
  whatever order the set lists them) and, iff SASL parameters are configured, \<open>CAP_SASL\<close>,
  filtered to the names the server advertises. If it is empty, nothing is sent (neither CAP
  REQ nor CAP END) and \<open>_requested_caps\<close> is left as it was; otherwise exactly one line is put
  on the write queue, CAP REQ with all the names, each but the last followed by one space, and
  the list becomes \<open>_requested_caps\<close>.
\<close>

theorem cap_ls_done_request:
  assumes "distinct queued" and "set queued = cap_queue s"
  shows "(let matches = map the (filter (\<lambda>x. x \<noteq> None \<and> x \<noteq> Some [])
        (map (\<lambda>c. available E c (dom (available_caps s)))
           (CAPS E @ queued @ (if sasl (conn_params s) = None then [] else [CAP_SASL E]))));
        req = build ''CAP'' [''REQ'', concat (map (\<lambda>t. t @ '' '') (butlast matches)) @ last matches]
    in (matches = [] \<longrightarrow> cap_ls_done E queued s = s\<lparr>cap_queue := {}\<rparr>) \<and>
       (matches \<noteq> [] \<longrightarrow>
          cap_ls_done E queued s =
            send req (DEFAULT E) (s\<lparr>cap_queue := {}, requested_caps := matches\<rparr>) \<and>
          requested_caps (cap_ls_done E queued s) = matches \<and>
          mset (write_queue (cap_ls_done E queued s)) =
            add_mset \<lparr>priority = DEFAULT E, pline = req\<rparr> (mset (write_queue s)) \<and>
          writer (cap_ls_done E queued s) = writer s))"
proof -
  define matches where "matches = map the (filter (\<lambda>x. x \<noteq> None \<and> x \<noteq> Some [])
        (map (\<lambda>c. available E c (dom (available_caps s)))
           (CAPS E @ queued @ (if sasl (conn_params s) = None then [] else [CAP_SASL E]))))"
  define req where
    "req = build ''CAP'' [''REQ'', concat (map (\<lambda>t. t @ '' '') (butlast matches)) @ last matches]"
  have fb: "filter_bool (map (\<lambda>c. available E c (dom (available_caps s)))
           (CAPS E @ queued @ (if sasl (conn_params s) = None then [] else [CAP_SASL E])))
         = matches"
    unfolding matches_def by (rule filter_bool_eq)
  have v: "cap_ls_done E queued s =
     (if matches \<noteq> []
      then send (build ''CAP'' [''REQ'', join '' '' matches]) (DEFAULT E)
             (s\<lparr>cap_queue := {}, requested_caps := matches\<rparr>)
      else s\<lparr>cap_queue := {}\<rparr>)"
    using cap_ls_done_value[of E queued s] unfolding fb .
  have join_spaces: "xs \<noteq> [] \<Longrightarrow>
      join sep xs = concat (map (\<lambda>t. t @ sep) (butlast xs)) @ last xs" for sep xs
    by (induction sep xs rule: join.induct) simp_all
  have j: "matches \<noteq> [] \<Longrightarrow> build ''CAP'' [''REQ'', join '' '' matches] = req"
    unfolding req_def by (simp add: join_spaces)
  have "(matches = [] \<longrightarrow> cap_ls_done E queued s = s\<lparr>cap_queue := {}\<rparr>) \<and>
       (matches \<noteq> [] \<longrightarrow>
          cap_ls_done E queued s =
            send req (DEFAULT E) (s\<lparr>cap_queue := {}, requested_caps := matches\<rparr>) \<and>
          requested_caps (cap_ls_done E queued s) = matches \<and>
          mset (write_queue (cap_ls_done E queued s)) =
            add_mset \<lparr>priority = DEFAULT E, pline = req\<rparr> (mset (write_queue s)) \<and>
          writer (cap_ls_done E queued s) = writer s)"
    unfolding v using j by (simp add: send_def heappush_mset)
  then show ?thesis unfolding matches_def req_def Let_def .
qed

theorem cap_ls_done_request_witness:
  "distinct [''b'', ''a''] \<and> set [''b'', ''a''] = cap_queue offered_three \<and>
   requested_caps (cap_ls_done builtin_env [''b'', ''a''] offered_three) =
     [''multi-prefix'', ''a'', ''sasl''] \<and>
   write_queue (cap_ls_done builtin_env [''b'', ''a''] offered_three) =
     [\<lparr>priority = 10, pline = build ''CAP'' [''REQ'', ''multi-prefix a sasl'']\<rparr>] \<and>
   cap_ls_done builtin_env [''a'', ''b''] offered_three =
     cap_ls_done builtin_env [''b'', ''a''] offered_three \<and>
   distinct [''b''] \<and> set [''b''] = cap_queue (queue_capability ''b'' demo_server) \<and>
   cap_ls_done demo_env [''b''] (queue_capability ''b'' demo_server) = demo_server"
proof -
  have d: "distinct [''b'', ''a'']" by simp
  have q: "set [''b'', ''a''] = cap_queue offered_three"
    by (auto simp: offered_three_def queue_capability_def demo_server_def)
  have m: "map the (filter (\<lambda>x. x \<noteq> None \<and> x \<noteq> Some [])
        (map (\<lambda>c. available builtin_env c (dom (available_caps offered_three)))
           (CAPS builtin_env @ [''b'', ''a''] @
             (if sasl (conn_params offered_three) = None then [] else [CAP_SASL builtin_env]))))
       = [''multi-prefix'', ''a'', ''sasl'']"
    by (simp add: offered_three_def queue_capability_def demo_server_def builtin_env_def)
  have wq: "write_queue offered_three = []"
    by (simp add: offered_three_def queue_capability_def demo_server_def)
  from cap_ls_done_request[OF d q, of builtin_env, unfolded m Let_def]
  have 1: "cap_ls_done builtin_env [''b'', ''a''] offered_three =
            send (build ''CAP'' [''REQ'',
                    concat (map (\<lambda>t. t @ '' '') (butlast [''multi-prefix'', ''a'', ''sasl'']))
                      @ last [''multi-prefix'', ''a'', ''sasl'']]) (DEFAULT builtin_env)
              (offered_three\<lparr>cap_queue := {}, requested_caps := [''multi-prefix'', ''a'', ''sasl'']\<rparr>)"
    and 2: "requested_caps (cap_ls_done builtin_env [''b'', ''a''] offered_three)
        = [''multi-prefix'', ''a'', ''sasl'']"
    by blast+
  have 3: "write_queue (cap_ls_done builtin_env [''b'', ''a''] offered_three) =
     [\<lparr>priority = 10, pline = build ''CAP'' [''REQ'', ''multi-prefix a sasl'']\<rparr>]"
    unfolding 1 by (simp add: send_def wq heappush_Nil builtin_env_def)
  have o: "cap_ls_done builtin_env [''a'', ''b''] offered_three =
      send (build ''CAP'' [''REQ'', ''multi-prefix a sasl'']) 10
        (offered_three\<lparr>cap_queue := {}, requested_caps := [''multi-prefix'', ''a'', ''sasl'']\<rparr>)"
    by (simp add: cap_ls_done_def Let_def offered_three_def queue_capability_def demo_server_def
        builtin_env_def)
  have 5: "cap_ls_done builtin_env [''a'', ''b''] offered_three =
      cap_ls_done builtin_env [''b'', ''a''] offered_three"
    unfolding o 1 by (simp add: builtin_env_def)
  have d0: "distinct [''b'']" by simp
  have q0: "set [''b''] = cap_queue (queue_capability ''b'' demo_server)"
    by (simp add: queue_capability_def demo_server_def)
  have m0: "map the (filter (\<lambda>x. x \<noteq> None \<and> x \<noteq> Some [])
        (map (\<lambda>c. available demo_env c (dom (available_caps (queue_capability ''b'' demo_server))))
           (CAPS demo_env @ [''b''] @
             (if sasl (conn_params (queue_capability ''b'' demo_server)) = None then []
              else [CAP_SASL demo_env])))) = []"
    by (simp add: queue_capability_def demo_server_def demo_env_def)
  from cap_ls_done_request[OF d0 q0, of demo_env, unfolded m0 Let_def]
  have 4: "cap_ls_done demo_env [''b''] (queue_capability ''b'' demo_server) = demo_server"
    by (simp add: queue_capability_def demo_server_def)
  show ?thesis
    apply (intro conjI)
    apply (rule d)
    apply (rule q)
    apply (rule 2)
    apply (rule 3)
    apply (rule 5)
    apply (rule d0)
    apply (rule q0)
    apply (rule 4)
    done
qed

lemma resume_bind:
  "(case resume rs t of
      Return r s' \<Rightarrow> resume rs (bind t (\<lambda>r s'. Return u (g s'))) = Return u (g s')
    | Raise e s' \<Rightarrow> resume rs (bind t (\<lambda>r s'. Return u (g s'))) = Raise e s'
    | Await fut s' k \<Rightarrow>
        resume rs (bind t (\<lambda>r s'. Return u (g s'))) =
          Await fut s' (\<lambda>l s''. bind (k l s'') (\<lambda>r s'. Return u (g s'))))"
proof (induction rs arbitrary: t)
  case Nil
  then show ?case by (cases t) simp_all
next
  case (Cons r rs)
  obtain l s1 where r: "r = (l, s1)" by (cases r)
  show ?case
  proof (cases t)
    case (Return a s)
    then show ?thesis by (simp add: r)
  next
    case (Raise e s)
    then show ?thesis by (simp add: r)
  next
    case (Await fut s k)
    have e1: "resume (r # rs) t = resume rs (k l s1)" by (simp add: r Await)
    have e2: "resume (r # rs) (bind t (\<lambda>r s'. Return u (g s')))
        = resume rs (bind (k l s1) (\<lambda>r s'. Return u (g s')))" by (simp add: r Await)
    show ?thesis unfolding e1 e2 by (rule Cons.IH)
  qed
qed




lemma cap_ack_tokens_value:
  "cap_ack_tokens E em s =
     (if fold (\<lambda>cap r. if cap \<in> set r then remove1 cap r else r) (emit_tokens em)
           (requested_caps s) = []
      then send (build ''CAP'' [''END'']) (DEFAULT E) (s\<lparr>requested_caps := []\<rparr>)
      else s\<lparr>requested_caps :=
             fold (\<lambda>cap r. if cap \<in> set r then remove1 cap r else r) (emit_tokens em)
               (requested_caps s)\<rparr>)"
  by (simp add: cap_ack_tokens_def Let_def emit_tokens_def)
























lemma sasl_userpass_respond_keeps:
  "keeps_requested (sasl_userpass_respond E u p m line s) s"
  by (simp add: sasl_userpass_respond_def wait_for_def send_def Let_def split: sum.splits)

lemma sasl_external_keeps: "keeps_requested (sasl_external E s) s"
  by (simp add: sasl_external_value wait_for_def send_def Let_def split: sum.splits)

lemma sasl_userpass_keeps: "keeps_requested (sasl_userpass E u p s) s"
proof (cases "available_caps s ''sasl''")
  case None
  then show ?thesis by (simp add: sasl_userpass_def)
next
  case (Some x)
  show ?thesis
  proof (cases x)
    case None
    with Some have a: "available_caps s ''sasl'' = Some None" by simp
    show ?thesis unfolding sasl_userpass_pre32[OF a]
      by (simp add: wait_for_def send_def Let_def sasl_userpass_respond_keeps split: sum.splits)
  next
    case (Some v)
    with \<open>available_caps s ''sasl'' = Some x\<close>
    have a: "available_caps s ''sasl'' = Some (Some v)" by simp
    show ?thesis unfolding sasl_userpass_value[OF a]
      by (simp add: wait_for_def send_def Let_def sasl_userpass_respond_keeps split: sum.splits)
  qed
qed

lemma sasl_not_return:
  "sasl_external E s \<noteq> Return a s'" "sasl_userpass E u p s \<noteq> Return a s'"
proof -
  show "sasl_external E s \<noteq> Return a s'" by (simp add: sasl_external_value)
  show "sasl_userpass E u p s \<noteq> Return a s'"
    by (simp add: sasl_userpass_def wait_for_def Let_def split: option.splits sum.splits)
qed

text \<open>
  Claim C10. For every CAP ACK or NAK message handled while SASL parameters (USERPASS or
  EXTERNAL) are configured and \<open>sasl\<close> is agreed, \<open>_cap_ack\<close> first runs the SASL coroutine of
  the configured mechanism: that coroutine never changes \<open>_requested_caps\<close> and never returns
  without suspending first, and however it is resumed, \<open>_cap_ack\<close> is suspended or has failed
  exactly as the SASL coroutine has, until the SASL coroutine returns; only then are the
  tokens removed. This holds in every such state, so a later message starts another attempt.
\<close>

theorem cap_ack_sasl_before_tokens:
  assumes "sasl (conn_params s) = Some p" and "cap_agreed E (CAP_SASL E) s"
    and "mechanism p = ''USERPASS'' \<or> mechanism p = ''EXTERNAL''"
  shows "\<exists>att. att = (if mechanism p = ''USERPASS''
                       then sasl_userpass E (case sasl_username p of None \<Rightarrow> [] | Some u \<Rightarrow> u)
                              (case sasl_password p of None \<Rightarrow> [] | Some w \<Rightarrow> w) s
                       else sasl_external E s) \<and>
     keeps_requested att s \<and>
     (\<forall>a s'. att \<noteq> Return a s') \<and>
     (\<forall>rs. case resume rs att of
              Return r s' \<Rightarrow> resume rs (cap_ack E em s) = Return () (cap_ack_tokens E em s')
            | Raise e s' \<Rightarrow> resume rs (cap_ack E em s) = Raise e s'
            | Await fut s' k \<Rightarrow> (\<exists>k'. resume rs (cap_ack E em s) = Await fut s' k'))"
proof -
  define att where "att = (if mechanism p = ''USERPASS''
                       then sasl_userpass E (case sasl_username p of None \<Rightarrow> [] | Some u \<Rightarrow> u)
                              (case sasl_password p of None \<Rightarrow> [] | Some w \<Rightarrow> w) s
                       else sasl_external E s)"
  have ca: "cap_ack E em s = bind att (\<lambda>r s'. Return () (cap_ack_tokens E em s'))"
    using assms by (auto simp: cap_ack_def att_def)
  have k: "keeps_requested att s"
    unfolding att_def by (simp add: sasl_external_keeps sasl_userpass_keeps)
  have nr: "\<forall>a s'. att \<noteq> Return a s'"
    unfolding att_def by (simp add: sasl_not_return)
  have rs: "\<forall>rs. case resume rs att of
              Return r s' \<Rightarrow> resume rs (cap_ack E em s) = Return () (cap_ack_tokens E em s')
            | Raise e s' \<Rightarrow> resume rs (cap_ack E em s) = Raise e s'
            | Await fut s' k \<Rightarrow> (\<exists>k'. resume rs (cap_ack E em s) = Await fut s' k')"
  proof
    fix rs
    from resume_bind[of rs att "()" "cap_ack_tokens E em"]
    show "case resume rs att of
              Return r s' \<Rightarrow> resume rs (cap_ack E em s) = Return () (cap_ack_tokens E em s')
            | Raise e s' \<Rightarrow> resume rs (cap_ack E em s) = Raise e s'
            | Await fut s' k \<Rightarrow> (\<exists>k'. resume rs (cap_ack E em s) = Await fut s' k')"
      unfolding ca by (cases "resume rs att") simp_all
  qed
  from k nr rs show ?thesis unfolding att_def by blast
qed

theorem cap_ack_sasl_before_tokens_witness:
  "sasl (conn_params ext_server) =
     Some \<lparr>mechanism = ''EXTERNAL'', sasl_username = None, sasl_password = None\<rparr> \<and>
   cap_agreed demo_env (CAP_SASL demo_env) ext_server \<and>
   (\<exists>k'. cap_ack demo_env (ack [''sasl'']) ext_server =
      Await 0
        (snd (wait_for (Response ''AUTHENTICATE'' [ParamAny] [''904'', ''907'', ''908''])
               (send (build ''AUTHENTICATE'' [''EXTERNAL'']) 10 ext_server)))
        k') \<and>
   resume [(build ''AUTHENTICATE'' [''+''], ext_server), (build ''903'' [], ext_server)]
     (cap_ack demo_env (ack [''sasl'']) ext_server) =
       Return () (cap_ack_tokens demo_env (ack [''sasl'']) ext_server) \<and>
   requested_caps (cap_ack_tokens demo_env (ack [''sasl'']) ext_server) = [''multi-prefix''] \<and>
   (\<exists>k'. cap_ack demo_env (ack [''multi-prefix''])
            (cap_ack_tokens demo_env (ack [''sasl'']) ext_server) =
      Await 0
        (snd (wait_for (Response ''AUTHENTICATE'' [ParamAny] [''904'', ''907'', ''908''])
               (send (build ''AUTHENTICATE'' [''EXTERNAL'']) 10
                  (cap_ack_tokens demo_env (ack [''sasl'']) ext_server))))
        k')"
proof -
  let ?p = "\<lparr>mechanism = ''EXTERNAL'', sasl_username = None, sasl_password = None\<rparr>"
  let ?s2 = "cap_ack_tokens demo_env (ack [''sasl'']) ext_server"
  have h1: "sasl (conn_params ext_server) = Some ?p" by (simp add: ext_server_def)
  have h2: "cap_agreed demo_env (CAP_SASL demo_env) ext_server"
    by (simp add: cap_agreed_def cap_available_def ext_server_def demo_env_def)
  have h3: "mechanism ?p = ''USERPASS'' \<or> mechanism ?p = ''EXTERNAL''" by simp
  have s2: "?s2 = ext_server\<lparr>requested_caps := [''multi-prefix'']\<rparr>"
    by (simp add: cap_ack_tokens_value emit_tokens_def ack_def ext_server_def)
  have g1: "sasl (conn_params ?s2) = Some ?p" unfolding s2 by (simp add: ext_server_def)
  have g2: "cap_agreed demo_env (CAP_SASL demo_env) ?s2"
    unfolding s2 by (simp add: cap_agreed_def cap_available_def ext_server_def demo_env_def)
  have rq: "requested_caps ?s2 = [''multi-prefix'']" unfolding s2 by simp
  have d: "DEFAULT demo_env = 10" by (simp add: demo_env_def)
  have f: "length (futures ext_server) = 0" "length (futures ?s2) = 0"
    unfolding s2 by (simp_all add: ext_server_def demo_server_def)
  have v0: "\<And>s. length (futures s) = 0 \<Longrightarrow> \<exists>k. resume [] (sasl_external demo_env s) =
      Await 0
        (snd (wait_for (Response ''AUTHENTICATE'' [ParamAny] [''904'', ''907'', ''908''])
               (send (build ''AUTHENTICATE'' [''EXTERNAL'']) 10 s)))
        k"
    by (simp add: sasl_external_value d)
  have v2: "resume [(build ''AUTHENTICATE'' [''+''], ext_server), (build ''903'' [], ext_server)]
      (sasl_external demo_env ext_server) = Return SUCCESS ext_server"
    by (simp add: sasl_external_value index_def build_def wait_for_def Let_def)
  note t1 = cap_ack_sasl_before_tokens[OF h1 h2 h3, of "ack [''sasl'']"]
  note t2 = cap_ack_sasl_before_tokens[OF g1 g2 h3, of "ack [''multi-prefix'']"]
  from v0[OF f(1)] obtain k1 where k1: "resume [] (sasl_external demo_env ext_server) =
      Await 0
        (snd (wait_for (Response ''AUTHENTICATE'' [ParamAny] [''904'', ''907'', ''908''])
               (send (build ''AUTHENTICATE'' [''EXTERNAL'']) 10 ext_server)))
        k1" by blast
  from v0[OF f(2)] obtain k2 where k2: "resume [] (sasl_external demo_env ?s2) =
      Await 0
        (snd (wait_for (Response ''AUTHENTICATE'' [ParamAny] [''904'', ''907'', ''908''])
               (send (build ''AUTHENTICATE'' [''EXTERNAL'']) 10 ?s2)))
        k2" by blast
  from t1 have A: "\<forall>rs. case resume rs (sasl_external demo_env ext_server) of
              Return r s' \<Rightarrow> resume rs (cap_ack demo_env (ack [''sasl'']) ext_server)
                  = Return () (cap_ack_tokens demo_env (ack [''sasl'']) s')
            | Raise e s' \<Rightarrow> resume rs (cap_ack demo_env (ack [''sasl'']) ext_server) = Raise e s'
            | Await fut s' k \<Rightarrow>
                (\<exists>k'. resume rs (cap_ack demo_env (ack [''sasl'']) ext_server) = Await fut s' k')"
    by simp
  note a1 = A[THEN spec, of "[]"]
  note a2 = A[THEN spec,
      of "[(build ''AUTHENTICATE'' [''+''], ext_server), (build ''903'' [], ext_server)]"]
  from t2 have B: "\<forall>rs. case resume rs (sasl_external demo_env ?s2) of
              Return r s' \<Rightarrow> resume rs (cap_ack demo_env (ack [''multi-prefix'']) ?s2)
                  = Return () (cap_ack_tokens demo_env (ack [''multi-prefix'']) s')
            | Raise e s' \<Rightarrow> resume rs (cap_ack demo_env (ack [''multi-prefix'']) ?s2) = Raise e s'
            | Await fut s' k \<Rightarrow>
                (\<exists>k'. resume rs (cap_ack demo_env (ack [''multi-prefix'']) ?s2) = Await fut s' k')"
    by simp
  note a3 = B[THEN spec, of "[]"]
  have c1: "\<exists>k'. cap_ack demo_env (ack [''sasl'']) ext_server =
      Await 0
        (snd (wait_for (Response ''AUTHENTICATE'' [ParamAny] [''904'', ''907'', ''908''])
               (send (build ''AUTHENTICATE'' [''EXTERNAL'']) 10 ext_server)))
        k'"
    using a1 unfolding k1 by simp
  have c2: "resume [(build ''AUTHENTICATE'' [''+''], ext_server), (build ''903'' [], ext_server)]
     (cap_ack demo_env (ack [''sasl'']) ext_server) = Return () ?s2"
    using a2 unfolding v2 by simp
  have c3: "\<exists>k'. cap_ack demo_env (ack [''multi-prefix'']) ?s2 =
      Await 0
        (snd (wait_for (Response ''AUTHENTICATE'' [ParamAny] [''904'', ''907'', ''908''])
               (send (build ''AUTHENTICATE'' [''EXTERNAL'']) 10 ?s2)))
        k'"
    using a3 unfolding k2 by simp
  show ?thesis
    apply (intro conjI)
    apply (rule h1)
    apply (rule h2)
    apply (rule c1)
    apply (rule c2)
    apply (rule rq)
    apply (rule c3)
    done
qed

section \<open>Teardown\<close>

lemma teardown_loop_props:
  "distinct (map snd es) \<Longrightarrow>
   \<forall>e\<in>set es. snd e < length (futures s) \<and> futures s ! snd e = Pending \<Longrightarrow>
   \<exists>s'. teardown_loop es s = Inr s' \<and> wait_for_list s' = wait_for_list s \<and>
        length (futures s') = length (futures s) \<and>
        (\<forall>e\<in>set es. futures s' ! snd e = Exception ConnectionClosedError) \<and>
        (\<forall>f. f \<notin> snd ` set es \<longrightarrow> futures s' ! f = futures s ! f)"
proof (induction es arbitrary: s)
  case Nil
  then show ?case by simp
next
  case (Cons a es)
  obtain r f where a: "a = (r, f)" by (cases a)
  from Cons.prems a have fp: "f < length (futures s)" "futures s ! f = Pending" by auto
  from Cons.prems(1) a have fn: "f \<notin> snd ` set es" and d: "distinct (map snd es)" by auto
  let ?s1 = "s\<lparr>futures := (futures s)[f := Exception ConnectionClosedError]\<rparr>"
  have se: "set_exception f ConnectionClosedError s = Inr ?s1" using fp by (simp add: set_exception_def)
  have p1: "\<forall>e\<in>set es. snd e < length (futures ?s1) \<and> futures ?s1 ! snd e = Pending"
  proof
    fix e assume e: "e \<in> set es"
    then have "snd e \<noteq> f" using fn by auto
    moreover from Cons.prems(2) e have "snd e < length (futures s) \<and> futures s ! snd e = Pending"
      by simp
    ultimately show "snd e < length (futures ?s1) \<and> futures ?s1 ! snd e = Pending" by simp
  qed
  from Cons.IH[OF d p1] obtain s' where
    r: "teardown_loop es ?s1 = Inr s'" and w: "wait_for_list s' = wait_for_list ?s1"
    and l: "length (futures s') = length (futures ?s1)"
    and x: "\<forall>e\<in>set es. futures s' ! snd e = Exception ConnectionClosedError"
    and o: "\<forall>f. f \<notin> snd ` set es \<longrightarrow> futures s' ! f = futures ?s1 ! f" by blast
  have 1: "teardown_loop (a # es) s = Inr s'" using r se by (simp add: a)
  have 2: "wait_for_list s' = wait_for_list s" using w by simp
  have 3: "length (futures s') = length (futures s)" using l by simp
  have "futures s' ! f = Exception ConnectionClosedError" using o fn fp by simp
  with x have 4: "\<forall>e\<in>set (a # es). futures s' ! snd e = Exception ConnectionClosedError"
    by (simp add: a)
  have 5: "\<forall>g. g \<notin> snd ` set (a # es) \<longrightarrow> futures s' ! g = futures s ! g"
  proof (intro allI impI)
    fix g assume g: "g \<notin> snd ` set (a # es)"
    then have "g \<noteq> f" "g \<notin> snd ` set es" by (auto simp: a)
    with o show "futures s' ! g = futures s ! g" by simp
  qed
  from 1 2 3 4 5 show ?case by blast
qed

lemma on_read_lines_empty_registry:
  "wait_for_list s = [] \<Longrightarrow>
   \<exists>s'. on_read_lines E ls s = Inr s' \<and> futures s' = futures s \<and> wait_for_list s' = []"
proof (induction ls arbitrary: s)
  case Nil
  then show ?case by simp
next
  case (Cons l ls)
  define s1 where "s1 = (if command l = ''PING''
      then send (build ''PONG'' (params l)) (DEFAULT E) s else s)"
  have r: "on_read_line E l s = Inr s1" using Cons.prems by (simp add: on_read_line_def s1_def)
  have w: "wait_for_list s1 = []" and f: "futures s1 = futures s"
    using Cons.prems by (simp_all add: s1_def send_def)
  from Cons.IH[OF w] obtain s' where "on_read_lines E ls s1 = Inr s'" "futures s' = futures s1"
    "wait_for_list s' = []" by blast
  then show ?case using r f by simp
qed

lemma on_read_line_keeps_unmatched:
  assumes ok: "registry_ok s" and e: "e \<in> set (wait_for_list s)" and nm: "\<not> fst e l"
  shows "\<exists>s1. on_read_line E l s = Inr s1 \<and> registry_ok s1 \<and> e \<in> set (wait_for_list s1)"
proof -
  from on_read_line_step[OF ok, of E l] obtain s1 where
    r: "on_read_line E l s = Inr s1" and ok1: "registry_ok s1" and
    c: "if \<exists>e\<in>set (wait_for_list s). fst e l
      then \<exists>k<length (wait_for_list s).
             fst (wait_for_list s ! k) l \<and>
             (\<forall>j<k. \<not> fst (wait_for_list s ! j) l) \<and>
             wait_for_list s1 = take k (wait_for_list s) @ drop (Suc k) (wait_for_list s) \<and>
             futures s ! snd (wait_for_list s ! k) = Pending \<and>
             futures s1 = (futures s)[snd (wait_for_list s ! k) := Result l] \<and>
             snd (wait_for_list s ! k) \<notin> snd ` set (wait_for_list s1) \<and>
             (\<forall>j<length (wait_for_list s). j \<noteq> k \<longrightarrow>
                wait_for_list s ! j \<in> set (wait_for_list s1) \<and>
                futures s1 ! snd (wait_for_list s ! j) = Pending)
      else wait_for_list s1 = wait_for_list s \<and> futures s1 = futures s"
    by blast
  have "e \<in> set (wait_for_list s1)"
  proof (cases "\<exists>e\<in>set (wait_for_list s). fst e l")
    case False
    with c e show ?thesis by simp
  next
    case True
    with c obtain k where k: "fst (wait_for_list s ! k) l"
      and o: "\<forall>j<length (wait_for_list s). j \<noteq> k \<longrightarrow> wait_for_list s ! j \<in> set (wait_for_list s1)"
      by auto
    from e obtain j where j: "j < length (wait_for_list s)" "wait_for_list s ! j = e"
      by (auto simp: in_set_conv_nth)
    with k nm have "j \<noteq> k" by auto
    with o j show ?thesis by auto
  qed
  with r ok1 show ?thesis by blast
qed

lemma on_read_lines_keeps_unmatched:
  "registry_ok s \<Longrightarrow> e \<in> set (wait_for_list s) \<Longrightarrow> \<forall>l\<in>set ls. \<not> fst e l \<Longrightarrow>
   \<exists>s1. on_read_lines E ls s = Inr s1 \<and> registry_ok s1 \<and> e \<in> set (wait_for_list s1)"
proof (induction ls arbitrary: s)
  case Nil
  then show ?case by simp
next
  case (Cons l ls)
  from Cons.prems(3) have nm: "\<not> fst e l" and rest: "\<forall>l\<in>set ls. \<not> fst e l" by simp_all
  from on_read_line_keeps_unmatched[OF Cons.prems(1) Cons.prems(2) nm, of E] obtain s1 where
    r: "on_read_line E l s = Inr s1" and ok1: "registry_ok s1" and e1: "e \<in> set (wait_for_list s1)"
    by blast
  from Cons.IH[OF ok1 e1 rest] obtain s2 where
    "on_read_lines E ls s1 = Inr s2" "registry_ok s2" "e \<in> set (wait_for_list s2)" by blast
  then show ?case using r by simp
qed

text \<open>
  Claim C9. If the connection is torn down while N entries are in the wait registry (N
  distinct pending futures), every one of them goes from pending to the connection-closed
  error and the registry is emptied, so that neither a second teardown nor any later line
  resolves one again; other futures are untouched. Before teardown, an entry that matches
  none of the lines read stays in the registry with its future pending.
\<close>

theorem teardown_fails_pending_waits:
  assumes ok: "registry_ok s"
  shows "\<exists>s'. teardown s = Inr s' \<and> wait_for_list s' = [] \<and>
      length (futures s') = length (futures s) \<and>
      card (snd ` set (wait_for_list s)) = length (wait_for_list s) \<and>
      (\<forall>e\<in>set (wait_for_list s).
          futures s ! snd e = Pending \<and> futures s' ! snd e = Exception ConnectionClosedError) \<and>
      (\<forall>f. f \<notin> snd ` set (wait_for_list s) \<longrightarrow> futures s' ! f = futures s ! f) \<and>
      teardown s' = Inr s' \<and>
      (\<forall>ls. \<exists>s''. on_read_lines E ls s' = Inr s'' \<and> futures s'' = futures s') \<and>
      (\<forall>ls e. e \<in> set (wait_for_list s) \<and> (\<forall>l\<in>set ls. \<not> fst e l) \<longrightarrow>
         (\<exists>s1. on_read_lines E ls s = Inr s1 \<and> e \<in> set (wait_for_list s1) \<and>
               futures s1 ! snd e = Pending))"
proof -
  from ok have d: "distinct (map snd (wait_for_list s))"
    and p: "\<forall>e\<in>set (wait_for_list s). snd e < length (futures s) \<and> futures s ! snd e = Pending"
    by (simp_all add: registry_ok_def list_all_iff)
  from teardown_loop_props[OF d p] obtain s0 where
    r: "teardown_loop (wait_for_list s) s = Inr s0"
    and l: "length (futures s0) = length (futures s)"
    and x: "\<forall>e\<in>set (wait_for_list s). futures s0 ! snd e = Exception ConnectionClosedError"
    and o: "\<forall>f. f \<notin> snd ` set (wait_for_list s) \<longrightarrow> futures s0 ! f = futures s ! f" by blast
  let ?s' = "s0\<lparr>wait_for_list := []\<rparr>"
  have 1: "teardown s = Inr ?s'" using r by (simp add: teardown_def)
  have 2: "wait_for_list ?s' = []" by simp
  have 3: "length (futures ?s') = length (futures s)" using l by simp
  have 4: "card (snd ` set (wait_for_list s)) = length (wait_for_list s)"
    using distinct_card[OF d] by simp
  have 5: "\<forall>e\<in>set (wait_for_list s).
          futures s ! snd e = Pending \<and> futures ?s' ! snd e = Exception ConnectionClosedError"
    using p x by simp
  have 6: "\<forall>f. f \<notin> snd ` set (wait_for_list s) \<longrightarrow> futures ?s' ! f = futures s ! f"
    using o by simp
  have 7: "teardown ?s' = Inr ?s'" by (simp add: teardown_def)
  have 8: "\<forall>ls. \<exists>s''. on_read_lines E ls ?s' = Inr s'' \<and> futures s'' = futures ?s'"
  proof
    fix ls
    from on_read_lines_empty_registry[OF 2, of E ls]
    show "\<exists>s''. on_read_lines E ls ?s' = Inr s'' \<and> futures s'' = futures ?s'" by blast
  qed
  have 9: "\<forall>ls e. e \<in> set (wait_for_list s) \<and> (\<forall>l\<in>set ls. \<not> fst e l) \<longrightarrow>
         (\<exists>s1. on_read_lines E ls s = Inr s1 \<and> e \<in> set (wait_for_list s1) \<and>
               futures s1 ! snd e = Pending)"
  proof (intro allI impI)
    fix ls e assume a: "e \<in> set (wait_for_list s) \<and> (\<forall>l\<in>set ls. \<not> fst e l)"
    then have a1: "e \<in> set (wait_for_list s)" and a2: "\<forall>l\<in>set ls. \<not> fst e l" by simp_all
    from on_read_lines_keeps_unmatched[OF ok a1 a2, of E] obtain s1 where
      r1: "on_read_lines E ls s = Inr s1" and ok1: "registry_ok s1"
      and e1: "e \<in> set (wait_for_list s1)" by blast
    from ok1 e1 have "futures s1 ! snd e = Pending" by (simp add: registry_ok_def list_all_iff)
    with r1 e1 show "\<exists>s1. on_read_lines E ls s = Inr s1 \<and> e \<in> set (wait_for_list s1) \<and>
               futures s1 ! snd e = Pending" by blast
  qed
  show ?thesis
    apply (rule exI[of _ ?s'])
    apply (intro conjI)
    apply (rule 1)
    apply (rule 2)
    apply (rule 3)
    apply (rule 4)
    apply (rule 5)
    apply (rule 6)
    apply (rule 7)
    apply (rule 8)
    apply (rule 9)
    done
qed

theorem teardown_fails_pending_waits_witness:
  "registry_ok two_waits \<and> length (wait_for_list two_waits) = 2 \<and>
   (\<exists>s'. teardown two_waits = Inr s' \<and> wait_for_list s' = [] \<and>
      futures s' = [Exception ConnectionClosedError, Exception ConnectionClosedError])"
proof -
  have ok: "registry_ok two_waits"
    by (simp add: two_waits_def demo_server_def wait_for_def registry_ok_def Let_def)
  have w: "wait_for_list two_waits =
     [(Numerics [''903'', ''904''], 0), (Response ''AUTHENTICATE'' [ParamAny] [''904''], 1)]"
    and f: "futures two_waits = [Pending, Pending]"
    by (simp_all add: two_waits_def demo_server_def wait_for_def Let_def)
  from teardown_fails_pending_waits[OF ok, of demo_env] obtain s' where
    r: "teardown two_waits = Inr s'" and e: "wait_for_list s' = []"
    and l: "length (futures s') = length (futures two_waits)"
    and x: "\<forall>e\<in>set (wait_for_list two_waits).
          futures two_waits ! snd e = Pending \<and> futures s' ! snd e = Exception ConnectionClosedError"
    by blast
  from x w have "futures s' ! 0 = Exception ConnectionClosedError"
    "futures s' ! 1 = Exception ConnectionClosedError" by simp_all
  moreover from l f have "length (futures s') = 2" by simp
  ultimately have "futures s' = [Exception ConnectionClosedError, Exception ConnectionClosedError]"
    by (intro nth_equalityI) (auto simp: less_Suc_eq numeral_2_eq_2)
  with r e ok w show ?thesis by simp
qed

end
